theory Spec2Isabelle
  imports Main "HOL-Library.Word"
begin

section \<open>The ct\_server binary: data\<close>

text \<open>
  The development embeds \<^verbatim>\<open>trillian/ctfe/ct_server/main.go\<close>. The program is a
  \<^verbatim>\<open>main\<close> function that talks to its collaborators (glog, etcd, gRPC, net/http, the
  ctfe package) and spawns goroutines. The embedding makes each of these calls an event
  of a trace, takes the answers of the collaborators from a \<open>world\<close> record, and returns
  the final state together with the exit status of the process.
\<close>

type_synonym error = string
  \<comment> \<open>a non-nil Go \<^verbatim>\<open>error\<close>, by its message\<close>

type_synonym duration = "64 word"
  \<comment> \<open>\<^verbatim>\<open>time.Duration\<close>: an int64 count of nanoseconds, read with \<open>sint\<close>\<close>

type_synonym time = int
  \<comment> \<open>an instant, in nanoseconds\<close>

datatype signal = SIGINT | SIGTERM

datatype operation = Add | Delete
  \<comment> \<open>\<^verbatim>\<open>naming.Operation\<close>\<close>

record update =
  Op :: operation
  Addr :: string

record log_config =
  LogId :: "64 word"
  Prefix :: string

record app_handler =
  Name :: string
  \<comment> \<open>a \<^verbatim>\<open>ctfe.AppHandler\<close>, by its name\<close>

datatype handler = App app_handler | Prom
  \<comment> \<open>what \<^verbatim>\<open>http.Handle\<close> is given: an \<^verbatim>\<open>AppHandler\<close> or \<^verbatim>\<open>promhttp.Handler()\<close>\<close>

datatype resolver = GRPCResolver "string list" | FixedBackendResolver
  \<comment> \<open>\<^verbatim>\<open>etcdnaming.GRPCResolver{Client: client}\<close>, the client given by the endpoints it was
      made for, and \<^verbatim>\<open>util.FixedBackendResolver{}\<close>\<close>

text \<open>The flags of lines 43--54, after \<^verbatim>\<open>flag.Parse()\<close>.\<close>

record flags =
  httpEndpoint :: string
  metricsEndpoint :: string
  rpcBackendFlag :: string
  rpcDeadlineFlag :: duration
  getSTHInterval :: duration
  logConfigFlag :: string
  maxGetEntriesFlag :: "64 word"
  etcdServers :: string
  etcdHTTPService :: string
  etcdMetricsService :: string

text \<open>How the blocking call \<^verbatim>\<open>server.ListenAndServe()\<close> of line 167 ends.\<close>

datatype serve_end =
    Signalled signal
  | ListenerReturned error
  | ServesForever

text \<open>
  What the collaborators answer. \<^verbatim>\<open>ListenAndServe\<close> always returns a non-nil error when
  it returns; a signal that arrives meanwhile is delivered to the goroutine running
  \<^verbatim>\<open>awaitSignal\<close>.
\<close>

record world =
  LogConfigFromFile :: "string \<Rightarrow> error + log_config list"
  clientv3_New :: "string list \<Rightarrow> error option"
  etcd_Update :: "string \<Rightarrow> update \<Rightarrow> error option"
  grpc_Dial :: "string \<Rightarrow> resolver \<Rightarrow> error option"
  SetUpInstance :: "log_config \<Rightarrow> error + (string \<times> app_handler) list"
  serving :: serve_end

datatype severity = INFO | WARNING | FATAL

datatype arg =
    AStr string
  | AErr error
  | AInt "64 word"
  | AUpdate update
  | AConfigs "log_config list"
  | ATime time
  | ASignal signal

datatype goroutine =
    MetricsServer string
  | GetSTHLoop log_config
  | AwaitSignal

datatype event =
    ELog severity string "arg list"
  | EVLog nat string "arg list"
  | ECopyStandardLogTo string
  | EFlush
  | ENewClient "string list"
  | EUpdate string update
  | EDial string resolver
  | EClose
  | ESetUp log_config
  | EHandle string handler
  | EGo goroutine
  | ENewTicker duration
  | EListen string
  | ETick time
  | EGetTreeHead "64 word" string
  | EExit int
  | EPanic string

text \<open>
  A deferred call, with the variables its closure captured: the function literal of
  lines 102--107 and \<^verbatim>\<open>conn.Close()\<close> of line 117.
\<close>

datatype deferred =
    RemovePresence string update string update
  | ConnClose

record state =
  trace :: "event list"
  defers :: "deferred list"
  mux :: "string \<rightharpoonup> handler"
  MaxGetEntriesAllowed :: "64 word"

text \<open>
  Where control is after a statement: it goes on with a value, the process is gone
  through \<^verbatim>\<open>os.Exit\<close> (deferred calls do not run), the goroutine is panicking (deferred
  calls run, then the runtime ends the process with status 2), or it is blocked for good.
\<close>

datatype 'a flow =
    Continue 'a state
  | Exiting int state
  | Panicking string state
  | Blocked state

definition and_then :: "'a flow \<Rightarrow> ('a \<Rightarrow> state \<Rightarrow> 'b flow) \<Rightarrow> 'b flow" where
  "and_then m k =
     (case m of
        Continue x s \<Rightarrow> k x s
      | Exiting n s \<Rightarrow> Exiting n s
      | Panicking p s \<Rightarrow> Panicking p s
      | Blocked s \<Rightarrow> Blocked s)"

section \<open>The collaborators' calls\<close>

definition emit :: "event \<Rightarrow> state \<Rightarrow> state" where
  "emit e s = s\<lparr>trace := trace s @ [e]\<rparr>"

definition glog_Infof :: "string \<Rightarrow> arg list \<Rightarrow> state \<Rightarrow> state" where
  "glog_Infof fmt args s = emit (ELog INFO fmt args) s"

definition glog_Warningf :: "string \<Rightarrow> arg list \<Rightarrow> state \<Rightarrow> state" where
  "glog_Warningf fmt args s = emit (ELog WARNING fmt args) s"

definition os_Exit :: "int \<Rightarrow> state \<Rightarrow> 'a flow" where
  "os_Exit n s = Exiting n (emit (EExit n) s)"

text \<open>\<^verbatim>\<open>glog.Exitf\<close> logs and then calls \<^verbatim>\<open>os.Exit(1)\<close>.\<close>

definition glog_Exitf :: "string \<Rightarrow> arg list \<Rightarrow> state \<Rightarrow> 'a flow" where
  "glog_Exitf fmt args s = os_Exit 1 (emit (ELog FATAL fmt args) s)"

text \<open>
  \<^verbatim>\<open>etcdRes.Update(ctx, service, update)\<close>: the call is made and its error is the world's.
\<close>

definition Update :: "world \<Rightarrow> string \<Rightarrow> update \<Rightarrow> state \<Rightarrow> error option \<times> state" where
  "Update w service u s = (etcd_Update w service u, emit (EUpdate service u) s)"

text \<open>
  \<^verbatim>\<open>http.Handle\<close> registers on the \<^verbatim>\<open>DefaultServeMux\<close>, which panics on an empty pattern
  and on a pattern that is registered already; \<open>mux\<close> holds the registered patterns.
\<close>

definition http_Handle :: "string \<Rightarrow> handler \<Rightarrow> state \<Rightarrow> unit flow" where
  "http_Handle pattern h s =
     (if pattern = [] then Panicking ''http: invalid pattern'' s
      else if mux s pattern \<noteq> None
        then Panicking (''http: multiple registrations for '' @ pattern) s
      else Continue () (emit (EHandle pattern h) (s\<lparr>mux := (mux s)(pattern \<mapsto> h)\<rparr>)))"

text \<open>\<^verbatim>\<open>strings.Split(s, sep)\<close> for a one-character separator.\<close>

fun strings_Split :: "string \<Rightarrow> char \<Rightarrow> string list" where
  "strings_Split [] sep = [[]]"
| "strings_Split (x # xs) sep =
     (if x = sep then [] # strings_Split xs sep
      else (case strings_Split xs sep of
              [] \<Rightarrow> [[x]]
            | y # ys \<Rightarrow> (x # y) # ys))"

section \<open>main\<close>

text \<open>Lines 81--111: the resolver, the announcements and the deferred removal.\<close>

definition choose_resolver :: "flags \<Rightarrow> world \<Rightarrow> string \<Rightarrow> state \<Rightarrow> resolver flow" where
  "choose_resolver fl w metricsAt s =
     (if length (etcdServers fl) > 0 then
        (let endpoints = strings_Split (etcdServers fl) CHR '','';
             s = emit (ENewClient endpoints) s
         in case clientv3_New w endpoints of
              Some err \<Rightarrow>
                glog_Exitf ''Failed to connect to etcd at %v: %v''
                  [AStr (etcdServers fl), AErr err] s
            | None \<Rightarrow>
               (let res = GRPCResolver endpoints;
                    updateHTTP = \<lparr>Op = Add, Addr = httpEndpoint fl\<rparr>;
                    updateMetrics = \<lparr>Op = Add, Addr = metricsAt\<rparr>;
                    s = glog_Infof ''Announcing our presence in %v with %+v''
                          [AStr (etcdHTTPService fl), AUpdate updateHTTP] s;
                    (_, s) = Update w (etcdHTTPService fl) updateHTTP s;
                    s = glog_Infof ''Announcing our presence in %v with %+v''
                          [AStr (etcdMetricsService fl), AUpdate updateMetrics] s;
                    (_, s) = Update w (etcdMetricsService fl) updateMetrics s;
                    byeHTTP = \<lparr>Op = Delete, Addr = httpEndpoint fl\<rparr>;
                    byeMetrics = \<lparr>Op = Delete, Addr = metricsAt\<rparr>;
                    s = s\<lparr>defers :=
                          RemovePresence (etcdHTTPService fl) byeHTTP
                            (etcdMetricsService fl) byeMetrics # defers s\<rparr>
                in Continue res s))
      else Continue FixedBackendResolver s)"

text \<open>Lines 112--117: the backend connection and its deferred close.\<close>

definition connect :: "flags \<Rightarrow> world \<Rightarrow> resolver \<Rightarrow> state \<Rightarrow> unit flow" where
  "connect fl w res s =
     (let s = emit (EDial (rpcBackendFlag fl) res) s
      in case grpc_Dial w (rpcBackendFlag fl) res of
           Some err \<Rightarrow> glog_Exitf ''Could not connect to rpc server: %v'' [AErr err] s
         | None \<Rightarrow> Continue () (s\<lparr>defers := ConnClose # defers s\<rparr>))"

text \<open>Lines 127--129: the handlers of one instance, in the order the map is ranged over.\<close>

fun install_handlers :: "(string \<times> app_handler) list \<Rightarrow> state \<Rightarrow> unit flow" where
  "install_handlers [] s = Continue () s"
| "install_handlers ((path, h) # rest) s =
     and_then (http_Handle path (App h) s) (\<lambda>_. install_handlers rest)"

text \<open>Lines 122--130: one instance per configured log. The message names \<^verbatim>\<open>cfg\<close>.\<close>

fun set_up_instances :: "world \<Rightarrow> log_config list \<Rightarrow> log_config list \<Rightarrow> state \<Rightarrow> unit flow" where
  "set_up_instances w cfg [] s = Continue () s"
| "set_up_instances w cfg (c # cs) s =
     (let s = emit (ESetUp c) s
      in case SetUpInstance w c of
           Inl err \<Rightarrow>
             glog_Exitf ''Failed to set up log instance for %+v: %v'' [AConfigs cfg, AErr err] s
         | Inr handlers \<Rightarrow>
             and_then (install_handlers handlers s) (\<lambda>_. set_up_instances w cfg cs))"

text \<open>Lines 131--143: metrics on a server of their own, or on the default mux.\<close>

definition serve_metrics :: "flags \<Rightarrow> string \<Rightarrow> state \<Rightarrow> unit flow" where
  "serve_metrics fl metricsAt s =
     (if metricsAt \<noteq> httpEndpoint fl then Continue () (emit (EGo (MetricsServer metricsAt)) s)
      else http_Handle ''/metrics'' Prom s)"

text \<open>Lines 148--159: a ticker and a goroutine for each log.\<close>

fun start_get_sth :: "flags \<Rightarrow> log_config list \<Rightarrow> state \<Rightarrow> state" where
  "start_get_sth fl [] s = s"
| "start_get_sth fl (c # cs) s =
     start_get_sth fl cs (emit (EGo (GetSTHLoop c)) (emit (ENewTicker (getSTHInterval fl)) s))"

text \<open>
  Lines 174--185. The goroutine blocks on the channel; \<open>sig\<close> is the signal it receives.
\<close>

definition awaitSignal :: "signal \<Rightarrow> (state \<Rightarrow> 'a flow) \<Rightarrow> state \<Rightarrow> 'a flow" where
  "awaitSignal sig doneFn s =
     (let s = glog_Warningf ''Signal received: %v'' [ASignal sig] s;
          s = emit EFlush s
      in doneFn s)"

text \<open>
  Lines 162--169. While \<^verbatim>\<open>main\<close> is inside \<^verbatim>\<open>ListenAndServe\<close>, a signal runs the rest of
  \<^verbatim>\<open>awaitSignal\<close> in its goroutine.
\<close>

definition serve :: "flags \<Rightarrow> world \<Rightarrow> state \<Rightarrow> unit flow" where
  "serve fl w s =
     (let s = emit (EGo AwaitSignal) s;
          s = emit (EListen (httpEndpoint fl)) s
      in case serving w of
           Signalled sig \<Rightarrow> awaitSignal sig (os_Exit 1) s
         | ListenerReturned err \<Rightarrow>
            (let s = glog_Warningf ''Server exited: %v'' [AErr err] s;
                 s = emit EFlush s
             in Continue () s)
         | ServesForever \<Rightarrow> Blocked s)"

text \<open>Lines 57--160: everything \<^verbatim>\<open>main\<close> does before it brings up the HTTP server.\<close>

definition startup :: "flags \<Rightarrow> world \<Rightarrow> state \<Rightarrow> unit flow" where
  "startup fl w s =
     (let s = (if 0 < sint (maxGetEntriesFlag fl)
               then s\<lparr>MaxGetEntriesAllowed := maxGetEntriesFlag fl\<rparr> else s)
      in case LogConfigFromFile w (logConfigFlag fl) of
           Inl err \<Rightarrow> glog_Exitf ''Failed to read log config: %v'' [AErr err] s
         | Inr cfg \<Rightarrow>
            (let s = emit (ECopyStandardLogTo ''WARNING'') s;
                 s = emit (ELog INFO ''**** CT HTTP Server Starting ****'' []) s;
                 metricsAt = (if metricsEndpoint fl = [] then httpEndpoint fl
                              else metricsEndpoint fl)
             in and_then (choose_resolver fl w metricsAt s) (\<lambda>res s.
                and_then (connect fl w res s) (\<lambda>_ s.
                and_then (set_up_instances w cfg cfg s) (\<lambda>_ s.
                and_then (serve_metrics fl metricsAt s) (\<lambda>_ s.
                  Continue ()
                    (if 0 < sint (getSTHInterval fl) then start_get_sth fl cfg s else s)))))))"

text \<open>The body of \<^verbatim>\<open>main\<close>, lines 57--169, up to its return.\<close>

definition main_body :: "flags \<Rightarrow> world \<Rightarrow> state \<Rightarrow> unit flow" where
  "main_body fl w s = and_then (startup fl w s) (\<lambda>_. serve fl w)"

text \<open>Deferred calls run last in, first out. The errors of \<^verbatim>\<open>Update\<close> are dropped.\<close>

fun run_deferred :: "world \<Rightarrow> deferred \<Rightarrow> state \<Rightarrow> state" where
  "run_deferred w (RemovePresence httpService byeHTTP metricsService byeMetrics) s =
     (let s = glog_Infof ''Removing our presence in %v with %+v''
                [AStr httpService, AUpdate byeHTTP] s;
          (_, s) = Update w httpService byeHTTP s;
          s = glog_Infof ''Removing our presence in %v with %+v''
                [AStr metricsService, AUpdate byeMetrics] s;
          (_, s) = Update w metricsService byeMetrics s
      in s)"
| "run_deferred w ConnClose s = emit EClose s"

fun run_defers :: "world \<Rightarrow> deferred list \<Rightarrow> state \<Rightarrow> state" where
  "run_defers w [] s = s"
| "run_defers w (d # ds) s = run_defers w ds (run_deferred w d s)"

text \<open>
  The process: \<^verbatim>\<open>main\<close> from the initial state, then the way the Go runtime ends it. The
  exit status is \<open>None\<close> for a process that serves for good.
\<close>

definition initial :: "64 word \<Rightarrow> state" where
  "initial dflt = \<lparr>trace = [], defers = [], mux = Map.empty, MaxGetEntriesAllowed = dflt\<rparr>"

definition finish :: "world \<Rightarrow> 'a flow \<Rightarrow> state \<times> int option" where
  "finish w f =
     (case f of
        Continue _ s \<Rightarrow> (run_defers w (defers s) (s\<lparr>defers := []\<rparr>), Some 0)
      | Exiting n s \<Rightarrow> (s, Some n)
      | Panicking p s \<Rightarrow> (emit (EPanic p) (run_defers w (defers s) (s\<lparr>defers := []\<rparr>)), Some 2)
      | Blocked s \<Rightarrow> (s, None))"

definition main :: "flags \<Rightarrow> world \<Rightarrow> state \<times> int option" where
  "main fl w = finish w (main_body fl w (initial 1000))"

section \<open>The goroutines\<close>

text \<open>
  Lines 152--157: the body of the loop over \<^verbatim>\<open>ticker.C\<close>. The ticks the goroutine
  receives come with the outcome of the \<^verbatim>\<open>ctfe.GetTreeHead\<close> call made for each. The
  channel is never closed; a list of ticks is what the goroutine has received so far.
\<close>

fun range_ticker_C :: "log_config \<Rightarrow> (time \<times> error option) list \<Rightarrow> state \<Rightarrow> state" where
  "range_ticker_C c [] s = s"
| "range_ticker_C c ((t, r) # ticks) s =
     (let s = emit (ETick t) s;
          s = emit (EVLog 1 ''tick at %v: force internal get-sth for log %v (%d)''
                      [ATime t, AStr (Prefix c), AInt (LogId c)]) s;
          s = emit (EGetTreeHead (LogId c) (Prefix c)) s;
          s = (case r of
                 Some err \<Rightarrow>
                   glog_Warningf ''failed to retrieve tree head for log %v (%d): %v''
                     [AStr (Prefix c), AInt (LogId c), AErr err] s
               | None \<Rightarrow> s)
      in range_ticker_C c ticks s)"

text \<open>Lines 150--158: the goroutine started for the log \<open>c\<close>.\<close>

definition get_sth_loop :: "log_config \<Rightarrow> (time \<times> error option) list \<Rightarrow> state \<Rightarrow> state" where
  "get_sth_loop c ticks s =
     range_ticker_C c ticks
       (glog_Infof ''start internal get-sth operations on log %v (%d)''
          [AStr (Prefix c), AInt (LogId c)] s)"

text \<open>
  Lines 133--139: the goroutine of the metrics server, which listens and logs the error
  that \<^verbatim>\<open>ListenAndServe\<close> returns, if it returns.
\<close>

definition metrics_server :: "string \<Rightarrow> error option \<Rightarrow> state \<Rightarrow> state" where
  "metrics_server metricsAt returned s =
     (let s = emit (EListen metricsAt) s
      in case returned of
           Some err \<Rightarrow> glog_Warningf ''Metrics server exited: %v'' [AErr err] s
         | None \<Rightarrow> s)"

text \<open>
  \<^verbatim>\<open>time.NewTicker(d)\<close>, from the documentation of package \<^verbatim>\<open>time\<close>: a ticker made at
  \<open>created\<close> ticks after each period \<open>d\<close> and sends the time of the tick on its channel;
  it drops ticks for a slow receiver. \<open>ks\<close> numbers the ticks that are delivered, from 0.
\<close>

definition ticker_C :: "time \<Rightarrow> duration \<Rightarrow> nat list \<Rightarrow> time list" where
  "ticker_C created d ks = map (\<lambda>k. created + int (Suc k) * sint d) ks"

section \<open>The fixed resolver\<close>

text \<open>
  Modelled from the spec: \<^verbatim>\<open>util.FixedBackendResolver.Resolve\<close> is not among the sources.
  Under the static variant the endpoint set is the fixed, comma-separated address list
  of the configuration.
\<close>

definition FixedBackendResolver_Resolve :: "string \<Rightarrow> string list" where
  "FixedBackendResolver_Resolve target = strings_Split target CHR '',''"

text \<open>\<^verbatim>\<open>strings.Join\<close>, to say what a comma-separated list is.\<close>

fun strings_Join :: "string list \<Rightarrow> string \<Rightarrow> string" where
  "strings_Join [] sep = []"
| "strings_Join [a] sep = a"
| "strings_Join (a # b # rest) sep = a @ sep @ strings_Join (b # rest) sep"

section \<open>Reading a trace\<close>

definition is_announce :: "event \<Rightarrow> bool" where
  "is_announce e = (case e of EUpdate service u \<Rightarrow> Op u = Add | _ \<Rightarrow> False)"

definition is_retract :: "event \<Rightarrow> bool" where
  "is_retract e = (case e of EUpdate service u \<Rightarrow> Op u = Delete | _ \<Rightarrow> False)"

text \<open>A call that reaches the directory: making the client, or an update.\<close>

definition is_directory :: "event \<Rightarrow> bool" where
  "is_directory e = (case e of ENewClient eps \<Rightarrow> True | EUpdate service u \<Rightarrow> True | _ \<Rightarrow> False)"

definition is_dial :: "event \<Rightarrow> bool" where
  "is_dial e = (case e of EDial target res \<Rightarrow> True | _ \<Rightarrow> False)"

text \<open>Registration of an instance: its set-up and the installation of its handlers.\<close>

definition is_registration :: "event \<Rightarrow> bool" where
  "is_registration e =
     (case e of ESetUp c \<Rightarrow> True | EHandle path (App h) \<Rightarrow> True | _ \<Rightarrow> False)"

text \<open>The start of a head-refresh task: its ticker and its goroutine.\<close>

definition is_refresh_start :: "event \<Rightarrow> bool" where
  "is_refresh_start e =
     (case e of ENewTicker d \<Rightarrow> True | EGo (GetSTHLoop c) \<Rightarrow> True | _ \<Rightarrow> False)"

text \<open>
  The start of an HTTP listener: \<^verbatim>\<open>ListenAndServe\<close> itself, or the goroutine of the
  metrics server, whose body is its listener.
\<close>

definition is_listener :: "event \<Rightarrow> bool" where
  "is_listener e =
     (case e of EListen addr \<Rightarrow> True | EGo (MetricsServer addr) \<Rightarrow> True | _ \<Rightarrow> False)"

definition is_fetch :: "event \<Rightarrow> bool" where
  "is_fetch e = (case e of EGetTreeHead i p \<Rightarrow> True | _ \<Rightarrow> False)"

definition is_exit :: "event \<Rightarrow> bool" where
  "is_exit e = (case e of EExit n \<Rightarrow> True | EPanic p \<Rightarrow> True | _ \<Rightarrow> False)"

text \<open>A log entry that carries the error \<open>err\<close> among its arguments.\<close>

definition logs_error :: "error \<Rightarrow> event \<Rightarrow> bool" where
  "logs_error err e =
     (case e of ELog sev fmt args \<Rightarrow> AErr err \<in> set args
              | EVLog v fmt args \<Rightarrow> AErr err \<in> set args
              | _ \<Rightarrow> False)"

text \<open>
  \<open>all_before P Q tr\<close>: every \<open>P\<close> event of the trace comes before every \<open>Q\<close> event,
  that is, from the first \<open>Q\<close> event on there is no \<open>P\<close> event.
\<close>

definition all_before :: "(event \<Rightarrow> bool) \<Rightarrow> (event \<Rightarrow> bool) \<Rightarrow> event list \<Rightarrow> bool" where
  "all_before P Q tr = (filter P (dropWhile (\<lambda>e. \<not> Q e) tr) = [])"

text \<open>The process got as far as \<^verbatim>\<open>server.ListenAndServe()\<close> on line 167.\<close>

definition listening :: "state \<times> int option \<Rightarrow> bool" where
  "listening r = (filter (\<lambda>e. case e of EListen addr \<Rightarrow> True | _ \<Rightarrow> False) (trace (fst r)) \<noteq> [])"

text \<open>The errors that the log entries of a trace carry, in order.\<close>

fun arg_errors :: "arg list \<Rightarrow> error list" where
  "arg_errors [] = []"
| "arg_errors (AErr err # as) = err # arg_errors as"
| "arg_errors (a # as) = arg_errors as"

fun logged_errors :: "event list \<Rightarrow> error list" where
  "logged_errors [] = []"
| "logged_errors (ELog sev fmt args # es) = arg_errors args @ logged_errors es"
| "logged_errors (EVLog v fmt args # es) = arg_errors args @ logged_errors es"
| "logged_errors (e # es) = logged_errors es"

definition is_tick :: "event \<Rightarrow> bool" where
  "is_tick e = (case e of ETick t \<Rightarrow> True | _ \<Rightarrow> False)"

text \<open>
  Every fetch of the trace answers a tick that was sent at \<open>lim\<close> or later; \<open>seen\<close> is the
  tick received last, if any.
\<close>

fun fetches_answer_ticks :: "time \<Rightarrow> time option \<Rightarrow> event list \<Rightarrow> bool" where
  "fetches_answer_ticks lim seen [] = True"
| "fetches_answer_ticks lim seen (ETick t # es) = fetches_answer_ticks lim (Some t) es"
| "fetches_answer_ticks lim seen (EGetTreeHead i p # es) =
     ((case seen of None \<Rightarrow> False | Some t \<Rightarrow> lim \<le> t) \<and> fetches_answer_ticks lim seen es)"
| "fetches_answer_ticks lim seen (e # es) = fetches_answer_ticks lim seen es"

text \<open>The events a state has gained since an earlier one.\<close>

definition since :: "state \<Rightarrow> state \<Rightarrow> event list" where
  "since s s' = drop (length (trace s)) (trace s')"

text \<open>The state a flow of control ends in.\<close>

fun flow_state :: "'a flow \<Rightarrow> state" where
  "flow_state (Continue x s) = s"
| "flow_state (Exiting n s) = s"
| "flow_state (Panicking p s) = s"
| "flow_state (Blocked s) = s"

text \<open>Control goes on; or it stopped in a fatal exit with status 1 or in a panic.\<close>

fun proceeds :: "'a flow \<Rightarrow> bool" where
  "proceeds (Continue x s) = True"
| "proceeds f = False"

fun aborts :: "'a flow \<Rightarrow> bool" where
  "aborts (Exiting n s) = (n = 1)"
| "aborts (Panicking p s) = True"
| "aborts f = False"

text \<open>The process ended in a panic.\<close>

definition panicked :: "state \<times> int option \<Rightarrow> bool" where
  "panicked r = (filter (\<lambda>e. case e of EPanic p \<Rightarrow> True | _ \<Rightarrow> False) (trace (fst r)) \<noteq> [])"

text \<open>The path-to-handler sets that \<^verbatim>\<open>ctfe.SetUpInstance\<close> returns for the logs \<open>cs\<close>.\<close>

definition handler_sets :: "world \<Rightarrow> log_config list \<Rightarrow> (string \<times> app_handler) list list" where
  "handler_sets w cs = map (\<lambda>c. case SetUpInstance w c of Inl err \<Rightarrow> [] | Inr hs \<Rightarrow> hs) cs"

definition set_up_ok :: "world \<Rightarrow> log_config \<Rightarrow> bool" where
  "set_up_ok w c = (case SetUpInstance w c of Inl err \<Rightarrow> False | Inr hs \<Rightarrow> True)"

text \<open>
  The events of the registration of the log \<open>c\<close>: its set-up, then one \<^verbatim>\<open>http.Handle\<close> for
  each path of the set that the set-up returned.
\<close>

definition registration_of :: "world \<Rightarrow> log_config \<Rightarrow> event list" where
  "registration_of w c =
     ESetUp c # map (\<lambda>(path, h). EHandle path (App h))
                  (case SetUpInstance w c of Inl err \<Rightarrow> [] | Inr hs \<Rightarrow> hs)"

text \<open>The events that start the head-refresh task of the log \<open>c\<close>.\<close>

definition refresh_start_of :: "flags \<Rightarrow> log_config \<Rightarrow> event list" where
  "refresh_start_of fl c = [ENewTicker (getSTHInterval fl), EGo (GetSTHLoop c)]"

text \<open>The resolver that lines 82--111 choose, and a startup that meets a fatal error.\<close>

definition chosen_resolver :: "flags \<Rightarrow> resolver" where
  "chosen_resolver fl =
     (if length (etcdServers fl) > 0 then GRPCResolver (strings_Split (etcdServers fl) CHR '','')
      else FixedBackendResolver)"

definition fatal_startup_failure :: "flags \<Rightarrow> world \<Rightarrow> bool" where
  "fatal_startup_failure fl w =
     (case LogConfigFromFile w (logConfigFlag fl) of
        Inl err \<Rightarrow> True
      | Inr cfg \<Rightarrow>
          (length (etcdServers fl) > 0 \<and>
             clientv3_New w (strings_Split (etcdServers fl) CHR '','') \<noteq> None) \<or>
          grpc_Dial w (rpcBackendFlag fl) (chosen_resolver fl) \<noteq> None \<or>
          list_ex (\<lambda>c. \<not> set_up_ok w c) cfg)"

text \<open>The world \<open>w\<close>, except that the directory answers the Add updates with \<open>r\<close>.\<close>

definition announcing :: "(string \<Rightarrow> update \<Rightarrow> error option) \<Rightarrow> world \<Rightarrow> world" where
  "announcing r w =
     w\<lparr>etcd_Update := \<lambda>service u. if Op u = Add then r service u else etcd_Update w service u\<rparr>"

text \<open>
  A route that makes \<^verbatim>\<open>http.Handle\<close> panic: an empty path, or a path that comes twice among
  the paths of the instances and \<^verbatim>\<open>/metrics\<close>, when metrics share the HTTP endpoint.
\<close>

definition routes_clash :: "flags \<Rightarrow> world \<Rightarrow> bool" where
  "routes_clash fl w =
     (case LogConfigFromFile w (logConfigFlag fl) of
        Inl err \<Rightarrow> False
      | Inr cfg \<Rightarrow>
          (let paths = map fst (concat (handler_sets w cfg)) @
                       (if metricsEndpoint fl = [] \<or> metricsEndpoint fl = httpEndpoint fl
                        then [''/metrics''] else [])
           in \<not> distinct paths \<or> [] \<in> set paths))"

text \<open>
  The place of an event in the order of \<^verbatim>\<open>main\<close>: 1 for the directory client and the
  announcements, 2 for the dial, 3 for registration, 4 for metrics, 5 for the refresh
  tasks, 6 for serving, 7 for closing the connection, 8 for the retraction, 9 for the
  panic that ends the process, and 0 for the events that have no fixed place.
\<close>

fun stage :: "event \<Rightarrow> nat" where
  "stage (ENewClient eps) = 1"
| "stage (EUpdate service u) = (if Op u = Add then 1 else 8)"
| "stage (EDial target res) = 2"
| "stage (ESetUp c) = 3"
| "stage (EHandle path (App h)) = 3"
| "stage (EHandle path Prom) = 4"
| "stage (EGo (MetricsServer addr)) = 4"
| "stage (ENewTicker d) = 5"
| "stage (EGo (GetSTHLoop c)) = 5"
| "stage (EGo AwaitSignal) = 6"
| "stage (EListen addr) = 6"
| "stage EClose = 7"
| "stage (EPanic p) = 9"
| "stage e = 0"

text \<open>The place of the events a deferred call will make.\<close>

fun dstage :: "deferred \<Rightarrow> nat" where
  "dstage ConnClose = 7"
| "dstage (RemovePresence httpService byeHTTP metricsService byeMetrics) =
     (if Op byeHTTP = Delete \<and> Op byeMetrics = Delete then 8 else 1)"

text \<open>
  \<open>adds A D s s'\<close>: the state \<open>s'\<close> is \<open>s\<close> with more events, all of stages in \<open>A\<close>,
  more deferred calls, all of stages in \<open>D\<close>, and more routes.
\<close>

definition adds :: "nat set \<Rightarrow> nat set \<Rightarrow> state \<Rightarrow> state \<Rightarrow> bool" where
  "adds A D s s' \<longleftrightarrow>
     (\<exists>evs. trace s' = trace s @ evs \<and> list_all (\<lambda>e. stage e \<in> A) evs) \<and>
     (\<exists>ds. defers s' = ds @ defers s \<and> list_all (\<lambda>d. dstage d \<in> D) ds) \<and>
     mux s \<subseteq>\<^sub>m mux s'"

text \<open>The events of stages 1 to 6 come in the order of their stages, none beyond \<open>k\<close>.\<close>

definition milestone :: "event \<Rightarrow> bool" where
  "milestone e \<longleftrightarrow> 0 < stage e \<and> stage e < 7"

definition ordered :: "nat \<Rightarrow> event list \<Rightarrow> bool" where
  "ordered k tr \<longleftrightarrow>
     sorted (map stage (filter milestone tr)) \<and> list_all (\<lambda>e. \<not> milestone e \<or> stage e \<le> k) tr"

section \<open>Two deployments\<close>

text \<open>
  A front end for two logs behind an etcd directory, with metrics on the HTTP endpoint,
  and the same front end with a fixed backend list and metrics on a port of their own.
\<close>

definition log_a :: log_config where
  "log_a = \<lparr>LogId = 1, Prefix = ''a''\<rparr>"

definition log_b :: log_config where
  "log_b = \<lparr>LogId = 2, Prefix = ''b''\<rparr>"

definition etcd_flags :: flags where
  "etcd_flags =
     \<lparr>httpEndpoint = ''h:1'', metricsEndpoint = [], rpcBackendFlag = ''log'',
      rpcDeadlineFlag = 10, getSTHInterval = 180, logConfigFlag = ''f'',
      maxGetEntriesFlag = 0, etcdServers = ''e1,e2'', etcdHTTPService = ''http'',
      etcdMetricsService = ''metrics''\<rparr>"

definition fixed_flags :: flags where
  "fixed_flags =
     \<lparr>httpEndpoint = ''h:1'', metricsEndpoint = ''h:2'', rpcBackendFlag = ''h1:80,h2:80'',
      rpcDeadlineFlag = 10, getSTHInterval = 0, logConfigFlag = ''f'',
      maxGetEntriesFlag = 0, etcdServers = [], etcdHTTPService = ''http'',
      etcdMetricsService = ''metrics''\<rparr>"

text \<open>
  A world where the directory refuses every update and everything else works; the
  server runs until \<open>e\<close> ends it.
\<close>

definition world_of :: "serve_end \<Rightarrow> world" where
  "world_of e =
     \<lparr>LogConfigFromFile = (\<lambda>f. Inr [log_a, log_b]),
      clientv3_New = (\<lambda>eps. None),
      etcd_Update = (\<lambda>service u. Some ''etcd down''),
      grpc_Dial = (\<lambda>target res. None),
      SetUpInstance = (\<lambda>c. Inr [(Prefix c @ ''/x'', \<lparr>Name = ''x''\<rparr>)]),
      serving = e\<rparr>"

text \<open>The same world, except that setting up the second log fails.\<close>

definition world_b_fails :: world where
  "world_b_fails =
     (world_of ServesForever)
       \<lparr>SetUpInstance := (\<lambda>c. if c = log_b then Inl ''no key''
                               else Inr [(Prefix c @ ''/x'', \<lparr>Name = ''x''\<rparr>)])\<rparr>"

section \<open>How the trace grows\<close>

lemma trace_emit [simp]: "trace (emit e s) = trace s @ [e]"
  by (simp add: emit_def)

lemma defers_emit [simp]: "defers (emit e s) = defers s"
  by (simp add: emit_def)

lemma mux_emit [simp]: "mux (emit e s) = mux s"
  by (simp add: emit_def)

lemma and_then_Continue:
  "and_then m k = Continue y t \<longleftrightarrow> (\<exists>x s. m = Continue x s \<and> k x s = Continue y t)"
  by (simp add: and_then_def split: flow.splits)

lemma adds_refl: "adds A D s s"
  by (simp add: adds_def)

lemma adds_trans: "adds A D s s' \<Longrightarrow> adds A D s' s'' \<Longrightarrow> adds A D s s''"
  by (auto simp: adds_def intro: map_le_trans)

lemma adds_mono: "adds A D s s' \<Longrightarrow> A \<subseteq> A' \<Longrightarrow> D \<subseteq> D' \<Longrightarrow> adds A' D' s s'"
  unfolding adds_def list_all_iff by blast

lemma adds_emit: "stage e \<in> A \<Longrightarrow> adds A D s (emit e s)"
  by (simp add: adds_def)

lemma and_then_adds:
  assumes "adds A D s (flow_state m)"
    and "\<And>x s'. m = Continue x s' \<Longrightarrow> adds A D s' (flow_state (k x s'))"
  shows "adds A D s (flow_state (and_then m k))"
  using assms by (cases m) (auto simp: and_then_def intro: adds_trans)

lemma choose_resolver_adds: "adds {0, 1} {8} s (flow_state (choose_resolver fl w m s))"
  by (simp add: choose_resolver_def adds_def Let_def glog_Exitf_def os_Exit_def glog_Infof_def
      Update_def split: option.splits)

lemma choose_resolver_static:
  "etcdServers fl = [] \<Longrightarrow> choose_resolver fl w m s = Continue FixedBackendResolver s"
  by (simp add: choose_resolver_def)

lemma connect_adds: "adds {0, 2} {7} s (flow_state (connect fl w res s))"
  by (simp add: connect_def adds_def Let_def glog_Exitf_def os_Exit_def split: option.splits)

lemma http_Handle_adds: "adds {stage (EHandle p h)} {} s (flow_state (http_Handle p h s))"
  by (auto simp: http_Handle_def adds_def map_le_def)

lemma install_handlers_adds: "adds {3} {} s (flow_state (install_handlers hs s))"
proof (induction hs arbitrary: s)
  case Nil
  show ?case by (simp add: adds_refl)
next
  case (Cons ph hs)
  obtain p h where ph: "ph = (p, h)" by (cases ph)
  have "adds {3} {} s (flow_state (http_Handle p (App h) s))"
    using http_Handle_adds [of p "App h" s] by simp
  then show ?case
    unfolding ph install_handlers.simps by (rule and_then_adds) (rule Cons.IH)
qed

lemma set_up_instances_adds: "adds {0, 3} {} s (flow_state (set_up_instances w cfg cs s))"
proof (induction cs arbitrary: s)
  case Nil
  show ?case by (simp add: adds_refl)
next
  case (Cons c cs)
  show ?case
  proof (cases "SetUpInstance w c")
    case (Inl err)
    then show ?thesis
      by (simp add: adds_def Let_def glog_Exitf_def os_Exit_def)
  next
    case (Inr hs)
    have a: "adds {0, 3} {} s (emit (ESetUp c) s)"
      by (simp add: adds_emit)
    have b: "adds {0, 3} {} (emit (ESetUp c) s) (flow_state (install_handlers hs (emit (ESetUp c) s)))"
      by (rule adds_mono [OF install_handlers_adds]) simp_all
    have "adds {0, 3} {} (emit (ESetUp c) s)
            (flow_state (and_then (install_handlers hs (emit (ESetUp c) s))
               (\<lambda>_. set_up_instances w cfg cs)))"
      using b by (rule and_then_adds) (rule Cons.IH)
    with a have "adds {0, 3} {} s
            (flow_state (and_then (install_handlers hs (emit (ESetUp c) s))
               (\<lambda>_. set_up_instances w cfg cs)))"
      by (rule adds_trans)
    then show ?thesis
      using Inr by (simp add: Let_def)
  qed
qed

lemma serve_metrics_adds: "adds {4} {} s (flow_state (serve_metrics fl m s))"
  using http_Handle_adds [of "''/metrics''" Prom s]
  by (simp add: serve_metrics_def adds_emit)

lemma start_get_sth_trace:
  "trace (start_get_sth fl cs s) =
     trace s @ concat (map (\<lambda>c. [ENewTicker (getSTHInterval fl), EGo (GetSTHLoop c)]) cs)"
  by (induction cs arbitrary: s) simp_all

lemma start_get_sth_defers: "defers (start_get_sth fl cs s) = defers s"
  by (induction cs arbitrary: s) simp_all

lemma start_get_sth_mux: "mux (start_get_sth fl cs s) = mux s"
  by (induction cs arbitrary: s) simp_all

lemma start_get_sth_adds: "adds {5} {} s (start_get_sth fl cs s)"
  by (simp add: adds_def start_get_sth_trace start_get_sth_defers start_get_sth_mux list_all_iff)

lemma serve_adds: "adds {0, 6} {} s (flow_state (serve fl w s))"
  by (simp add: serve_def adds_def Let_def awaitSignal_def glog_Warningf_def os_Exit_def
      split: serve_end.splits)


lemma adds_since:
  "adds A D s s' \<Longrightarrow> trace s' = trace s @ since s s' \<and> list_all (\<lambda>e. stage e \<in> A) (since s s')"
  by (auto simp: adds_def since_def)

lemma run_deferred_adds:
  "dstage d \<in> D \<Longrightarrow> D \<subseteq> {7, 8} \<Longrightarrow> adds (insert 0 D) {} s (run_deferred w d s)"
  by (cases d) (auto simp: adds_def glog_Infof_def Update_def emit_def split: if_splits)

lemma run_defers_trace:
  "list_all (\<lambda>d. dstage d \<in> D) ds \<Longrightarrow> D \<subseteq> {7, 8} \<Longrightarrow>
   \<exists>evs. trace (run_defers w ds s) = trace s @ evs \<and> list_all (\<lambda>e. stage e \<in> insert 0 D) evs"
proof (induction ds arbitrary: s)
  case Nil
  show ?case by simp
next
  case (Cons d ds)
  then have d: "dstage d \<in> D" and ds: "list_all (\<lambda>d. dstage d \<in> D) ds" by simp_all
  from run_deferred_adds [OF d Cons.prems(2), of s w] obtain evs where
    1: "trace (run_deferred w d s) = trace s @ evs" "list_all (\<lambda>e. stage e \<in> insert 0 D) evs"
    by (auto simp: adds_def)
  from Cons.IH [OF ds Cons.prems(2), of "run_deferred w d s"] obtain evs' where
    2: "trace (run_defers w ds (run_deferred w d s)) = trace (run_deferred w d s) @ evs'"
      "list_all (\<lambda>e. stage e \<in> insert 0 D) evs'"
    by auto
  from 1 2 show ?case by simp
qed

lemma finish_trace:
  assumes "list_all (\<lambda>d. dstage d \<in> D) (defers (flow_state f))" and "D \<subseteq> {7, 8}"
  shows "\<exists>evs. trace (fst (finish w f)) = trace (flow_state f) @ evs \<and>
     list_all (\<lambda>e. stage e \<in> insert 0 (insert 9 D)) evs"
proof (cases f)
  case (Continue x s)
  from assms Continue run_defers_trace [of D "defers s" w "s\<lparr>defers := []\<rparr>"] obtain evs where
    "trace (run_defers w (defers s) (s\<lparr>defers := []\<rparr>)) = trace s @ evs"
    "list_all (\<lambda>e. stage e \<in> insert 0 D) evs"
    by auto
  then have "trace (fst (finish w f)) = trace (flow_state f) @ evs"
    and "list_all (\<lambda>e. stage e \<in> insert 0 (insert 9 D)) evs"
    using Continue by (auto simp: finish_def list_all_iff)
  then show ?thesis by blast
next
  case (Panicking p s)
  from assms Panicking run_defers_trace [of D "defers s" w "s\<lparr>defers := []\<rparr>"] obtain evs where
    "trace (run_defers w (defers s) (s\<lparr>defers := []\<rparr>)) = trace s @ evs"
    "list_all (\<lambda>e. stage e \<in> insert 0 D) evs"
    by auto
  then have "trace (fst (finish w f)) = trace (flow_state f) @ (evs @ [EPanic p])"
    and "list_all (\<lambda>e. stage e \<in> insert 0 (insert 9 D)) (evs @ [EPanic p])"
    using Panicking by (auto simp: finish_def list_all_iff)
  then show ?thesis by blast
qed (simp_all add: finish_def)

lemma finish_stop: "\<not> proceeds m \<Longrightarrow> finish w (and_then m k) = finish w m"
  by (cases m) (simp_all add: and_then_def finish_def)

lemma proceeds_and_then:
  "proceeds (and_then m k) \<longleftrightarrow> (\<exists>x s. m = Continue x s \<and> proceeds (k x s))"
  by (cases m) (simp_all add: and_then_def)

lemma aborts_and_then:
  "proceeds m \<or> aborts m \<Longrightarrow> (\<And>x s. m = Continue x s \<Longrightarrow> proceeds (k x s) \<or> aborts (k x s)) \<Longrightarrow>
   proceeds (and_then m k) \<or> aborts (and_then m k)"
  by (cases m) (simp_all add: and_then_def)

lemma and_then_adds_stop:
  "\<not> proceeds m \<Longrightarrow> adds A D s (flow_state m) \<Longrightarrow> adds A D s (flow_state (and_then m k))"
  by (cases m) (simp_all add: and_then_def)

lemma sorted_same_stage:
  "list_all (\<lambda>e. milestone e \<longrightarrow> stage e = k) evs \<Longrightarrow> sorted (map stage (filter milestone evs))"
  by (induction evs) (auto simp: list_all_iff)

lemma ordered_append:
  assumes "ordered k tr" and "list_all (\<lambda>e. stage e \<in> {0, k', 7, 8, 9}) evs" and "k \<le> k'"
  shows "ordered k' (tr @ evs)"
proof -
  have same: "list_all (\<lambda>e. milestone e \<longrightarrow> stage e = k') evs"
    using assms(2) by (auto simp: list_all_iff milestone_def)
  have "sorted (map stage (filter milestone evs))"
    using same by (rule sorted_same_stage)
  moreover have "\<forall>x\<in>set tr. \<forall>y\<in>set evs. milestone x \<longrightarrow> milestone y \<longrightarrow> stage x \<le> stage y"
    using assms(1,3) same by (fastforce simp: ordered_def list_all_iff)
  moreover have "list_all (\<lambda>e. \<not> milestone e \<or> stage e \<le> k') (tr @ evs)"
    using assms(1,3) same by (fastforce simp: ordered_def list_all_iff)
  ultimately show ?thesis
    using assms(1) by (auto simp: ordered_def sorted_append)
qed

lemma ordered_adds:
  "ordered k (trace s) \<Longrightarrow> adds A D s s' \<Longrightarrow> A \<subseteq> {0, k', 7, 8, 9} \<Longrightarrow> k \<le> k' \<Longrightarrow>
   ordered k' (trace s')"
  using ordered_append [of k "trace s" k' "since s s'"]
    adds_since [OF adds_mono [of A D s s' "{0, k', 7, 8, 9}" D]]
  by auto

section \<open>The whole run\<close>

lemma choose_resolver_aborts:
  "proceeds (choose_resolver fl w m s) \<or> aborts (choose_resolver fl w m s)"
  by (simp add: choose_resolver_def Let_def glog_Exitf_def os_Exit_def Update_def
      split: option.splits)

lemma connect_aborts: "proceeds (connect fl w res s) \<or> aborts (connect fl w res s)"
  by (simp add: connect_def Let_def glog_Exitf_def os_Exit_def split: option.splits)

lemma http_Handle_aborts: "proceeds (http_Handle p h s) \<or> aborts (http_Handle p h s)"
  by (simp add: http_Handle_def)

lemma install_handlers_aborts: "proceeds (install_handlers hs s) \<or> aborts (install_handlers hs s)"
proof (induction hs arbitrary: s)
  case Nil
  show ?case by simp
next
  case (Cons ph hs)
  obtain p h where ph: "ph = (p, h)" by (cases ph)
  show ?case
    unfolding ph install_handlers.simps
    by (rule aborts_and_then) (rule http_Handle_aborts, rule Cons.IH)
qed

lemma set_up_instances_aborts:
  "proceeds (set_up_instances w cfg cs s) \<or> aborts (set_up_instances w cfg cs s)"
proof (induction cs arbitrary: s)
  case Nil
  show ?case by simp
next
  case (Cons c cs)
  show ?case
  proof (cases "SetUpInstance w c")
    case (Inl err)
    then show ?thesis by (simp add: Let_def glog_Exitf_def os_Exit_def)
  next
    case (Inr hs)
    have "proceeds (and_then (install_handlers hs (emit (ESetUp c) s)) (\<lambda>_. set_up_instances w cfg cs))
        \<or> aborts (and_then (install_handlers hs (emit (ESetUp c) s)) (\<lambda>_. set_up_instances w cfg cs))"
      by (rule aborts_and_then) (rule install_handlers_aborts, rule Cons.IH)
    then show ?thesis using Inr by (simp add: Let_def)
  qed
qed

lemma serve_metrics_aborts: "proceeds (serve_metrics fl m s) \<or> aborts (serve_metrics fl m s)"
  using http_Handle_aborts [of "''/metrics''" Prom s] by (simp add: serve_metrics_def)

lemma startup_unfold:
  assumes "LogConfigFromFile w (logConfigFlag fl) = Inr cfg"
  shows "startup fl w s =
    and_then (choose_resolver fl w (if metricsEndpoint fl = [] then httpEndpoint fl else metricsEndpoint fl)
        (emit (ELog INFO ''**** CT HTTP Server Starting ****'' [])
          (emit (ECopyStandardLogTo ''WARNING'')
            (if 0 < sint (maxGetEntriesFlag fl) then s\<lparr>MaxGetEntriesAllowed := maxGetEntriesFlag fl\<rparr> else s))))
      (\<lambda>res s. and_then (connect fl w res s)
      (\<lambda>_ s. and_then (set_up_instances w cfg cfg s)
      (\<lambda>_ s. and_then (serve_metrics fl (if metricsEndpoint fl = [] then httpEndpoint fl else metricsEndpoint fl) s)
      (\<lambda>_ s. Continue () (if 0 < sint (getSTHInterval fl) then start_get_sth fl cfg s else s)))))"
  using assms by (simp add: startup_def Let_def)

lemma startup_config_fails:
  assumes "LogConfigFromFile w (logConfigFlag fl) = Inl err"
  shows "startup fl w s =
    glog_Exitf ''Failed to read log config: %v'' [AErr err]
      (if 0 < sint (maxGetEntriesFlag fl) then s\<lparr>MaxGetEntriesAllowed := maxGetEntriesFlag fl\<rparr> else s)"
  using assms by (simp add: startup_def Let_def)

lemma startup_aborts: "proceeds (startup fl w s) \<or> aborts (startup fl w s)"
proof (cases "LogConfigFromFile w (logConfigFlag fl)")
  case (Inl err)
  then show ?thesis by (simp add: startup_config_fails glog_Exitf_def os_Exit_def)
next
  case (Inr cfg)
  show ?thesis
    unfolding startup_unfold [OF Inr]
    by (intro aborts_and_then choose_resolver_aborts connect_aborts set_up_instances_aborts
        serve_metrics_aborts) simp
qed

lemma startup_adds:
  assumes A: "{0, 2, 3, 4} \<subseteq> A" and D: "7 \<in> D"
    and dyn: "etcdServers fl \<noteq> [] \<Longrightarrow> 1 \<in> A \<and> 8 \<in> D"
    and sth: "0 < sint (getSTHInterval fl) \<Longrightarrow> 5 \<in> A"
  shows "adds A D s (flow_state (startup fl w s))"
proof (cases "LogConfigFromFile w (logConfigFlag fl)")
  case (Inl err)
  then show ?thesis
    using A by (simp add: startup_config_fails glog_Exitf_def os_Exit_def adds_def)
next
  case (Inr cfg)
  have a0: "adds A D s (emit (ELog INFO ''**** CT HTTP Server Starting ****'' [])
          (emit (ECopyStandardLogTo ''WARNING'')
            (if 0 < sint (maxGetEntriesFlag fl) then s\<lparr>MaxGetEntriesAllowed := maxGetEntriesFlag fl\<rparr> else s)))"
    using A by (simp add: adds_def)
  have a1: "adds A D s (flow_state (choose_resolver fl w m s))" for m s
  proof (cases "etcdServers fl = []")
    case True
    then show ?thesis by (simp add: choose_resolver_static adds_refl)
  next
    case False
    with dyn A show ?thesis
      by (intro adds_mono [OF choose_resolver_adds]) simp_all
  qed
  have a2: "adds A D s (flow_state (connect fl w res s))" for res s
    using A D by (intro adds_mono [OF connect_adds]) simp_all
  have a3: "adds A D s (flow_state (set_up_instances w cfg cfg s))" for s
    using A by (intro adds_mono [OF set_up_instances_adds]) simp_all
  have a4: "adds A D s (flow_state (serve_metrics fl m s))" for m s
    using A by (intro adds_mono [OF serve_metrics_adds]) simp_all
  have a5: "adds A D s (if 0 < sint (getSTHInterval fl) then start_get_sth fl cfg s else s)" for s
    using sth by (auto simp: adds_refl intro: adds_mono [OF start_get_sth_adds])
  show ?thesis
    unfolding startup_unfold [OF Inr]
    by (rule adds_trans [OF a0]) (intro and_then_adds a1 a2 a3 a4, simp add: a5)
qed

lemma serve_proceeds:
  "serve fl w s =
     (case serving w of
        Signalled sig \<Rightarrow>
          Exiting 1 (emit (EExit 1) (emit EFlush (emit (ELog WARNING ''Signal received: %v'' [ASignal sig])
            (emit (EListen (httpEndpoint fl)) (emit (EGo AwaitSignal) s)))))
      | ListenerReturned err \<Rightarrow>
          Continue () (emit EFlush (emit (ELog WARNING ''Server exited: %v'' [AErr err])
            (emit (EListen (httpEndpoint fl)) (emit (EGo AwaitSignal) s))))
      | ServesForever \<Rightarrow> Blocked (emit (EListen (httpEndpoint fl)) (emit (EGo AwaitSignal) s)))"
  by (simp add: serve_def Let_def awaitSignal_def glog_Warningf_def os_Exit_def
      split: serve_end.splits)

lemma main_body_adds:
  assumes A: "{0, 2, 3, 4, 6} \<subseteq> A" and D: "7 \<in> D"
    and dyn: "etcdServers fl \<noteq> [] \<Longrightarrow> 1 \<in> A \<and> 8 \<in> D"
    and sth: "0 < sint (getSTHInterval fl) \<Longrightarrow> 5 \<in> A"
  shows "adds A D s (flow_state (main_body fl w s))"
proof -
  have 1: "adds A D s (flow_state (startup fl w s))"
    using A D dyn sth by (intro startup_adds) simp_all
  have 2: "adds A D s' (flow_state (serve fl w s'))" for s'
    using A by (intro adds_mono [OF serve_adds]) simp_all
  show ?thesis
    unfolding main_body_def by (rule and_then_adds [OF 1]) (rule 2)
qed

lemma adds_initial:
  assumes "adds A D (initial n) s"
  shows "list_all (\<lambda>e. stage e \<in> A) (trace s)" and "list_all (\<lambda>d. dstage d \<in> D) (defers s)"
  using assms by (auto simp: adds_def initial_def)

lemma main_stages:
  assumes A: "{0, 2, 3, 4, 6} \<subseteq> A" and D: "7 \<in> D" "D \<subseteq> {7, 8}"
    and dyn: "etcdServers fl \<noteq> [] \<Longrightarrow> 1 \<in> A \<and> 8 \<in> D"
    and sth: "0 < sint (getSTHInterval fl) \<Longrightarrow> 5 \<in> A"
  shows "list_all (\<lambda>e. stage e \<in> A \<union> D \<union> {9}) (trace (fst (main fl w)))"
proof -
  have a: "adds A D (initial 1000) (flow_state (main_body fl w (initial 1000)))"
    using A D(1) dyn sth by (intro main_body_adds) simp_all
  from finish_trace [OF adds_initial(2) [OF a] D(2), of w] obtain evs where
    "trace (fst (main fl w)) = trace (flow_state (main_body fl w (initial 1000))) @ evs"
    "list_all (\<lambda>e. stage e \<in> insert 0 (insert 9 D)) evs"
    by (auto simp: main_def)
  with adds_initial(1) [OF a] A show ?thesis
    by (auto simp: list_all_iff)
qed

lemma stage_filter_empty:
  "list_all (\<lambda>e. stage e \<in> A) tr \<Longrightarrow> (\<And>e. P e \<Longrightarrow> stage e \<notin> A) \<Longrightarrow> filter P tr = []"
  by (auto simp: list_all_iff filter_empty_conv)

lemma startup_stops:
  assumes "\<not> proceeds (startup fl w (initial 1000))"
  shows "main fl w = finish w (startup fl w (initial 1000))"
    and "list_all (\<lambda>e. stage e \<in> {0, 1, 2, 3, 4, 5, 7, 8, 9}) (trace (fst (main fl w)))"
    and "aborts (startup fl w (initial 1000))"
proof -
  show m: "main fl w = finish w (startup fl w (initial 1000))"
    using assms by (simp add: main_def main_body_def finish_stop)
  have a: "adds {0, 1, 2, 3, 4, 5} {7, 8} (initial 1000) (flow_state (startup fl w (initial 1000)))"
    by (intro startup_adds) simp_all
  from finish_trace [OF adds_initial(2) [OF a], of w] obtain evs where
    "trace (fst (main fl w)) = trace (flow_state (startup fl w (initial 1000))) @ evs"
    "list_all (\<lambda>e. stage e \<in> insert 0 (insert 9 {7, 8})) evs"
    by (auto simp: m)
  with adds_initial(1) [OF a] show
    "list_all (\<lambda>e. stage e \<in> {0, 1, 2, 3, 4, 5, 7, 8, 9}) (trace (fst (main fl w)))"
    by (auto simp: list_all_iff)
  show "aborts (startup fl w (initial 1000))"
    using assms startup_aborts [of fl w "initial 1000"] by simp
qed

lemma run_defers_prefix: "\<exists>evs. trace (run_defers w ds s) = trace s @ evs"
proof (induction ds arbitrary: s)
  case Nil
  show ?case by simp
next
  case (Cons d ds)
  have "\<exists>evs. trace (run_deferred w d s) = trace s @ evs"
    by (cases d) (simp_all add: glog_Infof_def Update_def)
  with Cons.IH [of "run_deferred w d s"] show ?case by auto
qed

lemma finish_prefix: "\<exists>evs. trace (fst (finish w f)) = trace (flow_state f) @ evs"
proof (cases f)
  case (Continue x s)
  with run_defers_prefix [of w "defers s" "s\<lparr>defers := []\<rparr>"] show ?thesis
    by (auto simp: finish_def)
next
  case (Panicking p s)
  with run_defers_prefix [of w "defers s" "s\<lparr>defers := []\<rparr>"] show ?thesis
    by (auto simp: finish_def)
qed (simp_all add: finish_def)

lemma serve_listens: "EListen (httpEndpoint fl) \<in> set (trace (flow_state (serve fl w s)))"
  by (cases "serving w") (simp_all add: serve_proceeds)

lemma main_proceeds:
  assumes "startup fl w (initial 1000) = Continue u s"
  shows "main fl w = finish w (serve fl w s)" and "listening (main fl w)"
proof -
  show m: "main fl w = finish w (serve fl w s)"
    using assms by (simp add: main_def main_body_def and_then_def)
  from finish_prefix [of w "serve fl w s"] serve_listens [of fl w s]
  have "EListen (httpEndpoint fl) \<in> set (trace (fst (finish w (serve fl w s))))"
    by auto
  then show "listening (main fl w)"
    unfolding m listening_def filter_empty_conv by (auto intro: rev_bexI)
qed

lemma listening_iff: "listening (main fl w) \<longleftrightarrow> proceeds (startup fl w (initial 1000))"
proof (cases "proceeds (startup fl w (initial 1000))")
  case True
  then obtain u s where "startup fl w (initial 1000) = Continue u s"
    by (cases "startup fl w (initial 1000)") simp_all
  from main_proceeds(2) [OF this] True show ?thesis by simp
next
  case False
  have "filter (\<lambda>e. case e of EListen addr \<Rightarrow> True | _ \<Rightarrow> False) (trace (fst (main fl w))) = []"
    by (rule stage_filter_empty [OF startup_stops(2) [OF False]]) (auto split: event.splits)
  then show ?thesis using False by (simp add: listening_def)
qed

lemma finish_aborts: "aborts f \<Longrightarrow> snd (finish w f) = Some 1 \<or> snd (finish w f) = Some 2"
  by (cases f) (simp_all add: finish_def)

lemma exit_status_cases:
  "snd (main fl w) =
     (if listening (main fl w)
      then (case serving w of
              Signalled sig \<Rightarrow> Some 1
            | ListenerReturned err \<Rightarrow> Some 0
            | ServesForever \<Rightarrow> None)
      else if panicked (main fl w) then Some 2 else Some 1)"
proof (cases "proceeds (startup fl w (initial 1000))")
  case True
  then obtain u s where st: "startup fl w (initial 1000) = Continue u s"
    by (cases "startup fl w (initial 1000)") simp_all
  have "snd (finish w (serve fl w s)) =
      (case serving w of Signalled sig \<Rightarrow> Some 1 | ListenerReturned err \<Rightarrow> Some 0
         | ServesForever \<Rightarrow> None)"
    by (cases "serving w") (simp_all add: serve_proceeds finish_def)
  with main_proceeds [OF st] show ?thesis by simp
next
  case False
  note st = startup_stops [OF False]
  have nl: "\<not> listening (main fl w)"
    using False by (simp add: listening_iff)
  have a: "adds {0, 1, 2, 3, 4, 5} {7, 8} (initial 1000) (flow_state (startup fl w (initial 1000)))"
    by (intro startup_adds) simp_all
  show ?thesis
  proof (cases "startup fl w (initial 1000)")
    case (Continue u s)
    with False show ?thesis by simp
  next
    case (Exiting n s)
    with st(3) have n: "n = 1" by simp
    have m: "main fl w = (s, Some 1)"
      using st(1) Exiting n by (simp add: finish_def)
    have "list_all (\<lambda>e. stage e \<in> {0, 1, 2, 3, 4, 5}) (trace s)"
      using adds_initial(1) [OF a] Exiting by simp
    then have "filter (\<lambda>e. case e of EPanic p \<Rightarrow> True | _ \<Rightarrow> False) (trace s) = []"
      by (rule stage_filter_empty) (auto split: event.splits)
    then have "\<not> panicked (main fl w)"
      by (simp add: panicked_def m)
    with nl m show ?thesis by simp
  next
    case (Panicking p s)
    have m: "main fl w = (emit (EPanic p) (run_defers w (defers s) (s\<lparr>defers := []\<rparr>)), Some 2)"
      using st(1) Panicking by (simp add: finish_def)
    have "panicked (main fl w)"
      unfolding panicked_def m filter_empty_conv by (auto intro: rev_bexI [of "EPanic p"])
    with nl m show ?thesis by simp
  next
    case (Blocked s)
    with st(3) show ?thesis by simp
  qed
qed

lemma set_up_instances_fails:
  "c \<in> set cs \<Longrightarrow> SetUpInstance w c = Inl err \<Longrightarrow> set_up_instances w cfg cs s \<noteq> Continue u s'"
proof (induction cs arbitrary: s)
  case Nil
  then show ?case by simp
next
  case (Cons a cs)
  show ?case
  proof (cases "SetUpInstance w a")
    case (Inl e)
    then show ?thesis by (simp add: Let_def glog_Exitf_def os_Exit_def)
  next
    case (Inr hs)
    with Cons.prems have "c \<in> set cs" by auto
    from Cons.IH [OF this Cons.prems(2)] show ?thesis
      using Inr by (simp add: Let_def and_then_Continue)
  qed
qed

lemma startup_setup_fails:
  assumes cfg: "LogConfigFromFile w (logConfigFlag fl) = Inr cfg"
    and c: "c \<in> set cfg" "SetUpInstance w c = Inl err"
  shows "\<not> proceeds (startup fl w s)"
    and "adds {0, 1, 2, 3} {7, 8} s (flow_state (startup fl w s))"
proof -
  have stop: "\<not> proceeds (set_up_instances w cfg cfg t)" for t
    using set_up_instances_fails [OF c] by (cases "set_up_instances w cfg cfg t") auto
  show "\<not> proceeds (startup fl w s)"
    unfolding startup_unfold [OF cfg]
    using set_up_instances_fails [OF c]
    by (simp add: proceeds_and_then and_then_Continue)
  have a0: "adds {0, 1, 2, 3} {7, 8} s (emit (ELog INFO ''**** CT HTTP Server Starting ****'' [])
          (emit (ECopyStandardLogTo ''WARNING'')
            (if 0 < sint (maxGetEntriesFlag fl) then s\<lparr>MaxGetEntriesAllowed := maxGetEntriesFlag fl\<rparr> else s)))"
    by (simp add: adds_def)
  have a1: "adds {0, 1, 2, 3} {7, 8} t (flow_state (choose_resolver fl w m t))" for m t
    by (intro adds_mono [OF choose_resolver_adds]) simp_all
  have a2: "adds {0, 1, 2, 3} {7, 8} t (flow_state (connect fl w res t))" for res t
    by (intro adds_mono [OF connect_adds]) simp_all
  have a3: "adds {0, 1, 2, 3} {7, 8} t (flow_state (set_up_instances w cfg cfg t))" for t
    by (intro adds_mono [OF set_up_instances_adds]) simp_all
  show "adds {0, 1, 2, 3} {7, 8} s (flow_state (startup fl w s))"
    unfolding startup_unfold [OF cfg]
    by (rule adds_trans [OF a0]) (intro and_then_adds a1 a2 and_then_adds_stop stop a3)
qed

lemma setup_failure_run:
  assumes cfg: "LogConfigFromFile w (logConfigFlag fl) = Inr cfg"
    and c: "c \<in> set cfg" "SetUpInstance w c = Inl err"
  shows "snd (main fl w) = Some 1 \<or> snd (main fl w) = Some 2"
    and "list_all (\<lambda>e. stage e \<in> {0, 1, 2, 3, 7, 8, 9}) (trace (fst (main fl w)))"
proof -
  note f = startup_setup_fails [OF cfg c, of "initial 1000"]
  note st = startup_stops [OF f(1)]
  show "snd (main fl w) = Some 1 \<or> snd (main fl w) = Some 2"
    unfolding st(1) using st(3) by (rule finish_aborts)
  from finish_trace [OF adds_initial(2) [OF f(2)], of w] obtain evs where
    "trace (fst (main fl w)) = trace (flow_state (startup fl w (initial 1000))) @ evs"
    "list_all (\<lambda>e. stage e \<in> insert 0 (insert 9 {7, 8})) evs"
    by (auto simp: st(1))
  with adds_initial(1) [OF f(2)] show
    "list_all (\<lambda>e. stage e \<in> {0, 1, 2, 3, 7, 8, 9}) (trace (fst (main fl w)))"
    by (auto simp: list_all_iff)
qed

lemma strings_Split_not_Nil: "strings_Split t sep \<noteq> []"
  by (cases t) (simp_all split: list.splits)

lemma strings_Join_Cons: "strings_Join ((x # y) # ys) sep = x # strings_Join (y # ys) sep"
  by (cases ys) simp_all

lemma strings_Join_Split: "strings_Join (strings_Split t c) [c] = t"
proof (induction t)
  case Nil
  show ?case by simp
next
  case (Cons x xs)
  obtain y ys where s: "strings_Split xs c = y # ys"
    using strings_Split_not_Nil [of xs c] by (cases "strings_Split xs c") simp_all
  with Cons.IH show ?case
    by (simp add: strings_Join_Cons)
qed

lemma strings_Split_no_sep: "list_all (\<lambda>a. c \<notin> set a) (strings_Split t c)"
  by (induction t) (auto split: list.splits)

lemma static_run:
  assumes "etcdServers fl = []"
  shows "list_all (\<lambda>e. stage e \<in> {0, 2, 3, 4, 5, 6, 7, 9}) (trace (fst (main fl w)))"
proof -
  have "list_all (\<lambda>e. stage e \<in> {0, 2, 3, 4, 5, 6} \<union> {7} \<union> {9}) (trace (fst (main fl w)))"
    using assms by (intro main_stages) simp_all
  then show ?thesis by (auto simp: list_all_iff)
qed

lemma ordered_mono: "ordered j tr \<Longrightarrow> j \<le> k \<Longrightarrow> ordered k tr"
  by (auto simp: ordered_def list_all_iff)

lemma and_then_ordered:
  assumes "ordered j (trace (flow_state m))" and "j \<le> k"
    and "\<And>x s'. ordered j (trace s') \<Longrightarrow> ordered k (trace (flow_state (f x s')))"
  shows "ordered k (trace (flow_state (and_then m f)))"
  using assms by (cases m) (auto simp: and_then_def intro: ordered_mono)

lemma startup_ordered:
  assumes "ordered 0 (trace s)"
  shows "ordered 5 (trace (flow_state (startup fl w s)))"
proof (cases "LogConfigFromFile w (logConfigFlag fl)")
  case (Inl err)
  have "ordered 5 (trace s @ [ELog FATAL ''Failed to read log config: %v'' [AErr err], EExit 1])"
    using assms by (rule ordered_append) simp_all
  then show ?thesis
    using Inl by (simp add: startup_config_fails glog_Exitf_def os_Exit_def)
next
  case (Inr cfg)
  have "ordered 0 (trace s @ [ECopyStandardLogTo ''WARNING'',
      ELog INFO ''**** CT HTTP Server Starting ****'' []])"
    using assms by (rule ordered_append) simp_all
  then have o0: "ordered 0 (trace (emit (ELog INFO ''**** CT HTTP Server Starting ****'' [])
          (emit (ECopyStandardLogTo ''WARNING'')
            (if 0 < sint (maxGetEntriesFlag fl) then s\<lparr>MaxGetEntriesAllowed := maxGetEntriesFlag fl\<rparr> else s))))"
    by simp
  have o1: "ordered 0 (trace t) \<Longrightarrow> ordered 1 (trace (flow_state (choose_resolver fl w m t)))" for m t
    by (erule ordered_adds [OF _ choose_resolver_adds]) simp_all
  have o2: "ordered 1 (trace t) \<Longrightarrow> ordered 2 (trace (flow_state (connect fl w res t)))" for res t
    by (erule ordered_adds [OF _ connect_adds]) simp_all
  have o3: "ordered 2 (trace t) \<Longrightarrow> ordered 3 (trace (flow_state (set_up_instances w cfg cfg t)))" for t
    by (erule ordered_adds [OF _ set_up_instances_adds]) simp_all
  have o4: "ordered 3 (trace t) \<Longrightarrow> ordered 4 (trace (flow_state (serve_metrics fl m t)))" for m t
    by (erule ordered_adds [OF _ serve_metrics_adds]) simp_all
  have o5: "ordered 4 (trace t) \<Longrightarrow>
      ordered 5 (trace (if 0 < sint (getSTHInterval fl) then start_get_sth fl cfg t else t))" for t
    by (auto intro: ordered_mono elim: ordered_adds [OF _ start_get_sth_adds])
  show ?thesis
    unfolding startup_unfold [OF Inr]
    apply (rule and_then_ordered [OF o1 [OF o0]], simp)
    apply (rule and_then_ordered [OF o2], assumption, simp)
    apply (rule and_then_ordered [OF o3], assumption, simp)
    apply (rule and_then_ordered [OF o4], assumption, simp)
    apply (simp add: o5)
    done
qed

lemma main_ordered: "ordered 6 (trace (fst (main fl w)))"
proof -
  have i: "ordered 0 (trace (initial 1000))"
    by (simp add: ordered_def initial_def)
  have "ordered 6 (trace (flow_state (main_body fl w (initial 1000))))"
    unfolding main_body_def
    by (rule and_then_ordered [OF startup_ordered [OF i]], simp)
      (erule ordered_adds [OF _ serve_adds], simp_all)
  moreover
  have a: "adds {0, 1, 2, 3, 4, 5, 6} {7, 8} (initial 1000) (flow_state (main_body fl w (initial 1000)))"
    by (intro main_body_adds) simp_all
  from finish_trace [OF adds_initial(2) [OF a], of w] obtain evs where
    "trace (fst (main fl w)) = trace (flow_state (main_body fl w (initial 1000))) @ evs"
    "list_all (\<lambda>e. stage e \<in> insert 0 (insert 9 {7, 8})) evs"
    by (auto simp: main_def)
  ultimately show ?thesis
    using ordered_append [of 6 "trace (flow_state (main_body fl w (initial 1000)))" 6 evs]
    by (auto simp: list_all_iff)
qed

lemma ordered_all_before:
  assumes "ordered k tr"
    and P: "\<And>e. P e \<Longrightarrow> milestone e \<and> stage e \<le> j"
    and Q: "\<And>e. Q e \<Longrightarrow> milestone e \<and> j < stage e"
  shows "all_before P Q tr"
  using assms(1)
proof (induction tr)
  case Nil
  show ?case by (simp add: all_before_def)
next
  case (Cons x xs)
  from Cons.prems have xs: "ordered k xs"
    by (auto simp: ordered_def split: if_splits)
  show ?case
  proof (cases "Q x")
    case False
    with Cons.IH [OF xs] show ?thesis by (simp add: all_before_def)
  next
    case True
    have "\<not> P e" if "e \<in> set (x # xs)" for e
    proof
      assume "P e"
      with P have e: "milestone e" "stage e \<le> j" by auto
      from Q True have x: "milestone x" "j < stage x" by auto
      from e x that have "e \<in> set xs" by auto
      with Cons.prems x(1) e(1) have "stage x \<le> stage e"
        by (auto simp: ordered_def)
      with e x show False by simp
    qed
    with True show ?thesis
      by (auto simp: all_before_def filter_empty_conv)
  qed
qed

section \<open>A startup that succeeds\<close>

lemma http_Handle_Continue:
  "http_Handle p h s = Continue u s' \<Longrightarrow>
   mux s p = None \<and> s' = emit (EHandle p h) (s\<lparr>mux := (mux s)(p \<mapsto> h)\<rparr>)"
  by (auto simp: http_Handle_def split: if_splits)

lemma map_le_Some: "m \<subseteq>\<^sub>m m' \<Longrightarrow> m k = Some v \<Longrightarrow> m' k = Some v"
  by (auto simp: map_le_def dom_def)

lemma map_le_None: "m \<subseteq>\<^sub>m m' \<Longrightarrow> m' k = None \<Longrightarrow> m k = None"
  by (cases "m k") (auto dest: map_le_Some)

lemma adds_mux: "adds A D s s' \<Longrightarrow> mux s \<subseteq>\<^sub>m mux s'"
  by (simp add: adds_def)

lemma install_handlers_Continue:
  "install_handlers hs s = Continue u s' \<Longrightarrow>
   trace s' = trace s @ map (\<lambda>(p, h). EHandle p (App h)) hs
   \<and> distinct (map fst hs)
   \<and> list_all (\<lambda>(p, h). mux s p = None \<and> mux s' p = Some (App h)) hs"
proof (induction hs arbitrary: s)
  case Nil
  then show ?case by simp
next
  case (Cons ph hs)
  obtain p h where ph: "ph = (p, h)" by (cases ph)
  from Cons.prems obtain x s1 where
    1: "http_Handle p (App h) s = Continue x s1" and 2: "install_handlers hs s1 = Continue u s'"
    by (auto simp: ph and_then_Continue)
  from http_Handle_Continue [OF 1] have
    p: "mux s p = None" and s1: "s1 = emit (EHandle p (App h)) (s\<lparr>mux := (mux s)(p \<mapsto> App h)\<rparr>)"
    by simp_all
  from Cons.IH [OF 2] have
    t: "trace s' = trace s1 @ map (\<lambda>(p, h). EHandle p (App h)) hs"
    and d: "distinct (map fst hs)"
    and m: "list_all (\<lambda>(p, h). mux s1 p = None \<and> mux s' p = Some (App h)) hs"
    by simp_all
  have le: "mux s1 \<subseteq>\<^sub>m mux s'"
    using adds_mux [OF install_handlers_adds [of s1 hs]] 2 by simp
  have p1: "mux s1 p = Some (App h)"
    by (simp add: s1)
  have fresh: "p \<notin> fst ` set hs"
    using m p1 by (auto simp: list_all_iff)
  have "list_all (\<lambda>(q, h'). mux s q = None \<and> mux s' q = Some (App h')) hs"
    using m by (auto simp: list_all_iff s1 split: if_splits)
  with t d fresh p map_le_Some [OF le p1] show ?case
    by (simp add: ph s1)
qed

lemma set_up_instances_Continue:
  "set_up_instances w cfg cs s = Continue u s' \<Longrightarrow>
   trace s' = trace s @ concat (map (registration_of w) cs)
   \<and> list_all (set_up_ok w) cs
   \<and> distinct (map fst (concat (handler_sets w cs)))
   \<and> list_all (\<lambda>(p, h). mux s p = None \<and> mux s' p = Some (App h)) (concat (handler_sets w cs))"
proof (induction cs arbitrary: s)
  case Nil
  then show ?case by (simp add: handler_sets_def)
next
  case (Cons c cs)
  show ?case
  proof (cases "SetUpInstance w c")
    case (Inl err)
    with Cons.prems show ?thesis
      by (simp add: Let_def glog_Exitf_def os_Exit_def)
  next
    case (Inr hs)
    with Cons.prems obtain x s1 where
      1: "install_handlers hs (emit (ESetUp c) s) = Continue x s1"
      and 2: "set_up_instances w cfg cs s1 = Continue u s'"
      by (auto simp: Let_def and_then_Continue)
    from install_handlers_Continue [OF 1] have
      t1: "trace s1 = trace s @ registration_of w c"
      and d1: "distinct (map fst hs)"
      and m1: "list_all (\<lambda>(p, h). mux s p = None \<and> mux s1 p = Some (App h)) hs"
      by (simp_all add: registration_of_def Inr)
    from Cons.IH [OF 2] have
      t2: "trace s' = trace s1 @ concat (map (registration_of w) cs)"
      and ok: "list_all (set_up_ok w) cs"
      and d2: "distinct (map fst (concat (handler_sets w cs)))"
      and m2: "list_all (\<lambda>(p, h). mux s1 p = None \<and> mux s' p = Some (App h))
                 (concat (handler_sets w cs))"
      by simp_all
    have le1: "mux s \<subseteq>\<^sub>m mux s1"
      using adds_mux [OF install_handlers_adds [of "emit (ESetUp c) s" hs]] 1 by simp
    have le2: "mux s1 \<subseteq>\<^sub>m mux s'"
      using adds_mux [OF set_up_instances_adds [of s1 w cfg cs]] 2 by simp
    have hsets: "handler_sets w (c # cs) = hs # handler_sets w cs"
      by (simp add: handler_sets_def Inr)
    have disj: "fst ` set hs \<inter> fst ` set (concat (handler_sets w cs)) = {}"
    proof (rule ccontr)
      assume "fst ` set hs \<inter> fst ` set (concat (handler_sets w cs)) \<noteq> {}"
      then obtain q h h' where "(q, h) \<in> set hs" "(q, h') \<in> set (concat (handler_sets w cs))"
        by force
      with m1 m2 show False
        by (fastforce simp: list_all_iff)
    qed
    have a: "list_all (\<lambda>(p, h). mux s p = None \<and> mux s' p = Some (App h)) hs"
      using m1 le2 by (auto simp: list_all_iff dest: map_le_Some)
    have b: "list_all (\<lambda>(p, h). mux s p = None \<and> mux s' p = Some (App h))
                 (concat (handler_sets w cs))"
      unfolding list_all_iff
    proof
      fix x
      assume x: "x \<in> set (concat (handler_sets w cs))"
      obtain q h' where qh: "x = (q, h')" by (cases x)
      from m2 x qh have "mux s1 q = None" and "mux s' q = Some (App h')"
        by (auto simp: list_all_iff)
      with map_le_None [OF le1] qh show "case x of (p, h) \<Rightarrow> mux s p = None \<and> mux s' p = Some (App h)"
        by simp
    qed
    have okc: "set_up_ok w c"
      by (simp add: set_up_ok_def Inr)
    show ?thesis
      using t1 t2 ok okc d1 d2 disj a b
      by (simp add: hsets del: set_concat)
  qed
qed

lemma startup_ContinueD:
  assumes "startup fl w s = Continue u s'"
  obtains cfg res s1 s2 s3 s4 where
    "LogConfigFromFile w (logConfigFlag fl) = Inr cfg"
    "choose_resolver fl w (if metricsEndpoint fl = [] then httpEndpoint fl else metricsEndpoint fl)
        (emit (ELog INFO ''**** CT HTTP Server Starting ****'' [])
          (emit (ECopyStandardLogTo ''WARNING'')
            (if 0 < sint (maxGetEntriesFlag fl) then s\<lparr>MaxGetEntriesAllowed := maxGetEntriesFlag fl\<rparr> else s)))
      = Continue res s1"
    "connect fl w res s1 = Continue () s2"
    "set_up_instances w cfg cfg s2 = Continue () s3"
    "serve_metrics fl (if metricsEndpoint fl = [] then httpEndpoint fl else metricsEndpoint fl) s3
      = Continue () s4"
    "s' = (if 0 < sint (getSTHInterval fl) then start_get_sth fl cfg s4 else s4)"
proof (cases "LogConfigFromFile w (logConfigFlag fl)")
  case (Inl err)
  with assms show ?thesis
    by (simp add: startup_config_fails glog_Exitf_def os_Exit_def)
next
  case (Inr cfg)
  from assms [unfolded startup_unfold [OF Inr]] that [OF Inr] show ?thesis
    by (auto simp: and_then_Continue)
qed

lemma run_defers_mux: "mux (run_defers w ds s) = mux s"
proof (induction ds arbitrary: s)
  case Nil
  show ?case by simp
next
  case (Cons d ds)
  have "mux (run_deferred w d s) = mux s"
    by (cases d) (simp_all add: glog_Infof_def Update_def)
  with Cons.IH [of "run_deferred w d s"] show ?case by simp
qed

lemma finish_mux: "mux (fst (finish w f)) = mux (flow_state f)"
  by (cases f) (simp_all add: finish_def run_defers_mux)

lemma successful_run:
  assumes l: "listening (main fl w)" and cfg: "LogConfigFromFile w (logConfigFlag fl) = Inr cfg"
  shows "\<exists>pre mid post.
      trace (fst (main fl w)) =
        pre @ concat (map (registration_of w) cfg) @ mid @
        (if 0 < sint (getSTHInterval fl) then concat (map (refresh_start_of fl) cfg) else []) @ post
      \<and> list_all (\<lambda>e. stage e \<in> {0, 1, 2}) pre
      \<and> list_all (\<lambda>e. stage e \<in> {4}) mid
      \<and> list_all (\<lambda>e. stage e \<in> {0, 6, 7, 8, 9}) post"
    and "list_all (set_up_ok w) cfg"
    and "distinct (map fst (concat (handler_sets w cfg)))"
    and "list_all (\<lambda>(p, h). mux (fst (main fl w)) p = Some (App h)) (concat (handler_sets w cfg))"
proof -
  from l obtain u s' where st: "startup fl w (initial 1000) = Continue u s'"
    by (cases "startup fl w (initial 1000)") (simp_all add: listening_iff)
  define s0 where "s0 = emit (ELog INFO ''**** CT HTTP Server Starting ****'' [])
          (emit (ECopyStandardLogTo ''WARNING'')
            (if 0 < sint (maxGetEntriesFlag fl)
             then (initial 1000)\<lparr>MaxGetEntriesAllowed := maxGetEntriesFlag fl\<rparr> else initial 1000))"
  from startup_ContinueD [OF st] obtain cfg' res s1 s2 s3 s4 where
    cfg': "LogConfigFromFile w (logConfigFlag fl) = Inr cfg'"
    and r': "choose_resolver fl w (if metricsEndpoint fl = [] then httpEndpoint fl else metricsEndpoint fl)
        (emit (ELog INFO ''**** CT HTTP Server Starting ****'' [])
          (emit (ECopyStandardLogTo ''WARNING'')
            (if 0 < sint (maxGetEntriesFlag fl)
             then (initial 1000)\<lparr>MaxGetEntriesAllowed := maxGetEntriesFlag fl\<rparr> else initial 1000)))
      = Continue res s1"
    and c: "connect fl w res s1 = Continue () s2"
    and i': "set_up_instances w cfg' cfg' s2 = Continue () s3"
    and m: "serve_metrics fl (if metricsEndpoint fl = [] then httpEndpoint fl else metricsEndpoint fl) s3
      = Continue () s4"
    and s'': "s' = (if 0 < sint (getSTHInterval fl) then start_get_sth fl cfg' s4 else s4)"
    by blast
  from cfg cfg' have same: "cfg' = cfg" by simp
  note r = r' [folded s0_def] and i = i' [unfolded same] and s' = s'' [unfolded same]
  have t0: "trace s0 = [ECopyStandardLogTo ''WARNING'', ELog INFO ''**** CT HTTP Server Starting ****'' []]"
    by (simp add: s0_def initial_def)
  have a1: "adds {0, 1} {8} s0 s1"
    using choose_resolver_adds [of s0 fl w] r by (metis flow_state.simps(1))
  have a2: "adds {0, 2} {7} s1 s2"
    using connect_adds [of s1 fl w res] c by simp
  note reg = set_up_instances_Continue [OF i]
  have a4: "adds {4} {} s3 s4"
    using serve_metrics_adds [of s3 fl] m by (metis flow_state.simps(1))
  have t5: "trace s' = trace s4 @
      (if 0 < sint (getSTHInterval fl) then concat (map (refresh_start_of fl) cfg) else [])"
    by (simp add: s' start_get_sth_trace refresh_start_of_def [abs_def])
  have mn: "main fl w = finish w (serve fl w s')"
    by (rule main_proceeds(1) [OF st])
  have a6: "adds {0, 6} {} s' (flow_state (serve fl w s'))"
    by (rule serve_adds)
  have mb: "main_body fl w (initial 1000) = serve fl w s'"
    by (simp add: main_body_def st and_then_def)
  have "adds {0, 1, 2, 3, 4, 5, 6} {7, 8} (initial 1000) (flow_state (main_body fl w (initial 1000)))"
    by (intro main_body_adds) simp_all
  from finish_trace [OF adds_initial(2) [OF this], of w] obtain evs where
    t7: "trace (fst (main fl w)) = trace (flow_state (serve fl w s')) @ evs"
    and e7: "list_all (\<lambda>e. stage e \<in> insert 0 (insert 9 {7, 8})) evs"
    by (auto simp: main_def mb)
  let ?pre = "trace s0 @ since s0 s1 @ since s1 s2"
  let ?mid = "since s3 s4"
  let ?post = "since s' (flow_state (serve fl w s')) @ evs"
  have "trace (fst (main fl w)) =
        ?pre @ concat (map (registration_of w) cfg) @ ?mid @
        (if 0 < sint (getSTHInterval fl) then concat (map (refresh_start_of fl) cfg) else []) @ ?post"
    using adds_since [OF a1] adds_since [OF a2] reg adds_since [OF a4] t5 adds_since [OF a6] t7
    by simp
  moreover have "list_all (\<lambda>e. stage e \<in> {0, 1, 2}) ?pre"
    using adds_since [OF a1] adds_since [OF a2] by (auto simp: t0 list_all_iff)
  moreover have "list_all (\<lambda>e. stage e \<in> {4}) ?mid"
    using adds_since [OF a4] by simp
  moreover have "list_all (\<lambda>e. stage e \<in> {0, 6, 7, 8, 9}) ?post"
    using adds_since [OF a6] e7 by (auto simp: list_all_iff)
  ultimately show "\<exists>pre mid post.
      trace (fst (main fl w)) =
        pre @ concat (map (registration_of w) cfg) @ mid @
        (if 0 < sint (getSTHInterval fl) then concat (map (refresh_start_of fl) cfg) else []) @ post
      \<and> list_all (\<lambda>e. stage e \<in> {0, 1, 2}) pre
      \<and> list_all (\<lambda>e. stage e \<in> {4}) mid
      \<and> list_all (\<lambda>e. stage e \<in> {0, 6, 7, 8, 9}) post"
    by blast
  from reg show "list_all (set_up_ok w) cfg" and "distinct (map fst (concat (handler_sets w cfg)))"
    by simp_all
  have le: "mux s3 \<subseteq>\<^sub>m mux (fst (main fl w))"
  proof -
    have "mux s3 \<subseteq>\<^sub>m mux s4" by (rule adds_mux [OF a4])
    moreover have "mux s4 = mux s'" by (simp add: s' start_get_sth_mux)
    moreover have "mux s' \<subseteq>\<^sub>m mux (flow_state (serve fl w s'))" by (rule adds_mux [OF a6])
    moreover have "mux (fst (main fl w)) = mux (flow_state (serve fl w s'))"
      by (simp add: mn finish_mux)
    ultimately show ?thesis by (auto intro: map_le_trans)
  qed
  from reg have "list_all (\<lambda>(p, h). mux s3 p = Some (App h)) (concat (handler_sets w cfg))"
    by (auto simp: list_all_iff)
  then show "list_all (\<lambda>(p, h). mux (fst (main fl w)) p = Some (App h)) (concat (handler_sets w cfg))"
    using map_le_Some [OF le] by (fastforce simp: list_all_iff simp del: set_concat)
qed

lemma choose_resolver_mux: "mux (flow_state (choose_resolver fl w m s)) = mux s"
  by (simp add: choose_resolver_def Let_def glog_Exitf_def os_Exit_def glog_Infof_def Update_def
      split: option.splits)

lemma connect_mux: "mux (flow_state (connect fl w res s)) = mux s"
  by (simp add: connect_def Let_def glog_Exitf_def os_Exit_def split: option.splits)

lemma serve_mux: "mux (flow_state (serve fl w s)) = mux s"
  by (cases "serving w") (simp_all add: serve_proceeds)

lemma install_handlers_dom:
  "install_handlers hs s = Continue u s' \<Longrightarrow> dom (mux s') = dom (mux s) \<union> fst ` set hs"
proof (induction hs arbitrary: s)
  case Nil
  then show ?case by simp
next
  case (Cons ph hs)
  obtain p h where ph: "ph = (p, h)" by (cases ph)
  from Cons.prems obtain x s1 where
    1: "http_Handle p (App h) s = Continue x s1" and 2: "install_handlers hs s1 = Continue u s'"
    by (auto simp: ph and_then_Continue)
  from http_Handle_Continue [OF 1] have "dom (mux s1) = insert p (dom (mux s))"
    by simp
  with Cons.IH [OF 2] show ?case
    by (simp add: ph)
qed

lemma set_up_instances_dom:
  "set_up_instances w cfg cs s = Continue u s' \<Longrightarrow>
   dom (mux s') = dom (mux s) \<union> fst ` set (concat (handler_sets w cs))"
proof (induction cs arbitrary: s)
  case Nil
  then show ?case by (simp add: handler_sets_def)
next
  case (Cons c cs)
  show ?case
  proof (cases "SetUpInstance w c")
    case (Inl err)
    with Cons.prems show ?thesis
      by (simp add: Let_def glog_Exitf_def os_Exit_def)
  next
    case (Inr hs)
    with Cons.prems obtain x s1 where
      1: "install_handlers hs (emit (ESetUp c) s) = Continue x s1"
      and 2: "set_up_instances w cfg cs s1 = Continue u s'"
      by (auto simp: Let_def and_then_Continue)
    have hsets: "handler_sets w (c # cs) = hs # handler_sets w cs"
      by (simp add: handler_sets_def Inr)
    from install_handlers_dom [OF 1] Cons.IH [OF 2] show ?thesis
      by (simp add: hsets Un_assoc image_Un del: set_concat)
  qed
qed

lemma serve_metrics_dom:
  "serve_metrics fl m s = Continue u s' \<Longrightarrow>
   dom (mux s') = dom (mux s) \<union> (if m \<noteq> httpEndpoint fl then {} else {''/metrics''})"
  by (auto simp: serve_metrics_def dest!: http_Handle_Continue split: if_splits)

lemma successful_run_routes:
  assumes l: "listening (main fl w)" and cfg: "LogConfigFromFile w (logConfigFlag fl) = Inr cfg"
  shows "dom (mux (fst (main fl w))) =
     fst ` set (concat (handler_sets w cfg)) \<union>
     (if metricsEndpoint fl = [] \<or> metricsEndpoint fl = httpEndpoint fl then {''/metrics''} else {})"
proof -
  from l obtain u s' where st: "startup fl w (initial 1000) = Continue u s'"
    by (cases "startup fl w (initial 1000)") (simp_all add: listening_iff)
  from startup_ContinueD [OF st] obtain cfg' res s1 s2 s3 s4 where
    cfg': "LogConfigFromFile w (logConfigFlag fl) = Inr cfg'"
    and r: "choose_resolver fl w (if metricsEndpoint fl = [] then httpEndpoint fl else metricsEndpoint fl)
        (emit (ELog INFO ''**** CT HTTP Server Starting ****'' [])
          (emit (ECopyStandardLogTo ''WARNING'')
            (if 0 < sint (maxGetEntriesFlag fl)
             then (initial 1000)\<lparr>MaxGetEntriesAllowed := maxGetEntriesFlag fl\<rparr> else initial 1000)))
      = Continue res s1"
    and c: "connect fl w res s1 = Continue () s2"
    and i': "set_up_instances w cfg' cfg' s2 = Continue () s3"
    and m: "serve_metrics fl (if metricsEndpoint fl = [] then httpEndpoint fl else metricsEndpoint fl) s3
      = Continue () s4"
    and s'': "s' = (if 0 < sint (getSTHInterval fl) then start_get_sth fl cfg' s4 else s4)"
    by blast
  from cfg cfg' have same: "cfg' = cfg" by simp
  have d1: "mux s1 = Map.empty"
    using arg_cong [OF r, of "\<lambda>f. mux (flow_state f)"]
    by (simp add: choose_resolver_mux initial_def split: if_splits)
  have d2: "mux s2 = mux s1"
    using arg_cong [OF c, of "\<lambda>f. mux (flow_state f)"] by (simp add: connect_mux)
  have d3: "dom (mux s3) = dom (mux s2) \<union> fst ` set (concat (handler_sets w cfg))"
    using set_up_instances_dom [OF i'] by (simp add: same)
  note d4 = serve_metrics_dom [OF m]
  have d5: "mux s' = mux s4"
    by (simp add: s'' start_get_sth_mux)
  have "mux (fst (main fl w)) = mux s'"
    by (simp add: main_proceeds(1) [OF st] finish_mux serve_mux)
  with d1 d2 d3 d4 d5 show ?thesis
    by (auto split: if_splits)
qed

section \<open>What the order of events means\<close>

lemma all_before_Cons:
  "all_before P Q (x # xs) = (if Q x then \<not> P x \<and> (\<forall>e\<in>set xs. \<not> P e) else all_before P Q xs)"
  by (auto simp: all_before_def filter_empty_conv)

lemma all_before_nth:
  "all_before P Q tr \<longleftrightarrow>
     (\<forall>i j. i < length tr \<and> j < length tr \<and> Q (tr ! i) \<and> P (tr ! j) \<longrightarrow> j < i)"
proof (induction tr)
  case Nil
  show ?case by (simp add: all_before_def)
next
  case (Cons x xs)
  show ?case
  proof (cases "Q x")
    case True
    have "(\<not> P x \<and> (\<forall>e\<in>set xs. \<not> P e)) \<longleftrightarrow>
        (\<forall>i j. i < length (x # xs) \<and> j < length (x # xs) \<and> Q ((x # xs) ! i) \<and> P ((x # xs) ! j) \<longrightarrow> j < i)"
    proof
      assume np: "\<not> P x \<and> (\<forall>e\<in>set xs. \<not> P e)"
      then have "\<not> P ((x # xs) ! j)" if "j < length (x # xs)" for j
        using that nth_mem [of j "x # xs"] by auto
      then show "\<forall>i j. i < length (x # xs) \<and> j < length (x # xs) \<and> Q ((x # xs) ! i) \<and> P ((x # xs) ! j) \<longrightarrow> j < i"
        by blast
    next
      assume r: "\<forall>i j. i < length (x # xs) \<and> j < length (x # xs) \<and> Q ((x # xs) ! i) \<and> P ((x # xs) ! j) \<longrightarrow> j < i"
      have "\<not> P e" if "e \<in> set (x # xs)" for e
      proof
        assume "P e"
        from that obtain j where "j < length (x # xs)" "(x # xs) ! j = e"
          unfolding in_set_conv_nth by blast
        with r [rule_format, of 0 j] True \<open>P e\<close> show False by simp
      qed
      then show "\<not> P x \<and> (\<forall>e\<in>set xs. \<not> P e)" by simp
    qed
    with True show ?thesis by (simp only: all_before_Cons if_True)
  next
    case False
    have "(\<forall>i j. i < length xs \<and> j < length xs \<and> Q (xs ! i) \<and> P (xs ! j) \<longrightarrow> j < i) \<longleftrightarrow>
        (\<forall>i j. i < length (x # xs) \<and> j < length (x # xs) \<and> Q ((x # xs) ! i) \<and> P ((x # xs) ! j) \<longrightarrow> j < i)"
    proof
      assume l: "\<forall>i j. i < length xs \<and> j < length xs \<and> Q (xs ! i) \<and> P (xs ! j) \<longrightarrow> j < i"
      show "\<forall>i j. i < length (x # xs) \<and> j < length (x # xs) \<and> Q ((x # xs) ! i) \<and> P ((x # xs) ! j) \<longrightarrow> j < i"
      proof (intro allI impI)
        fix i j
        assume a: "i < length (x # xs) \<and> j < length (x # xs) \<and> Q ((x # xs) ! i) \<and> P ((x # xs) ! j)"
        with False obtain i' where i: "i = Suc i'" by (cases i) auto
        show "j < i"
        proof (cases j)
          case 0
          with i show ?thesis by simp
        next
          case (Suc j')
          with a i l [rule_format, of i' j'] show ?thesis by simp
        qed
      qed
    next
      assume r: "\<forall>i j. i < length (x # xs) \<and> j < length (x # xs) \<and> Q ((x # xs) ! i) \<and> P ((x # xs) ! j) \<longrightarrow> j < i"
      show "\<forall>i j. i < length xs \<and> j < length xs \<and> Q (xs ! i) \<and> P (xs ! j) \<longrightarrow> j < i"
      proof (intro allI impI)
        fix i j
        assume "i < length xs \<and> j < length xs \<and> Q (xs ! i) \<and> P (xs ! j)"
        with r [rule_format, of "Suc i" "Suc j"] show "j < i" by simp
      qed
    qed
    with False Cons.IH show ?thesis by (simp only: all_before_Cons if_False)
  qed
qed

section \<open>The error of an update is never read\<close>

lemma choose_resolver_Update:
  "choose_resolver fl (w\<lparr>etcd_Update := f\<rparr>) m s = choose_resolver fl w m s"
  by (simp add: choose_resolver_def Update_def Let_def split: option.splits)

lemma connect_Update: "connect fl (w\<lparr>etcd_Update := f\<rparr>) res s = connect fl w res s"
  by (simp add: connect_def)

lemma set_up_instances_Update:
  "set_up_instances (w\<lparr>etcd_Update := f\<rparr>) cfg cs s = set_up_instances w cfg cs s"
  by (induction cs arbitrary: s) (simp_all add: Let_def and_then_def split: sum.splits flow.splits)

lemma serve_Update: "serve fl (w\<lparr>etcd_Update := f\<rparr>) = serve fl w"
  by (rule ext) (simp add: serve_def)

lemma startup_Update: "startup fl (w\<lparr>etcd_Update := f\<rparr>) s = startup fl w s"
  by (simp add: startup_def choose_resolver_Update connect_Update set_up_instances_Update
      cong: sum.case_cong)

lemma run_deferred_Update: "run_deferred (w\<lparr>etcd_Update := f\<rparr>) d s = run_deferred w d s"
  by (cases d) (simp_all add: Update_def)

lemma run_defers_Update: "run_defers (w\<lparr>etcd_Update := f\<rparr>) ds s = run_defers w ds s"
  by (induction ds arbitrary: s) (simp_all add: run_deferred_Update)

lemma finish_Update: "finish (w\<lparr>etcd_Update := f\<rparr>) fw = finish w fw"
  by (cases fw) (simp_all add: finish_def run_defers_Update)

lemma main_Update: "main fl (w\<lparr>etcd_Update := f\<rparr>) = main fl w"
  by (simp add: main_def main_body_def finish_Update startup_Update serve_Update)

section \<open>The head-refresh goroutine\<close>

lemma range_ticker_C_trace:
  "trace (range_ticker_C c ticks s) =
     trace s @
     concat (map (\<lambda>(t, r).
        [ETick t,
         EVLog 1 ''tick at %v: force internal get-sth for log %v (%d)''
           [ATime t, AStr (Prefix c), AInt (LogId c)],
         EGetTreeHead (LogId c) (Prefix c)] @
        (case r of
           Some err \<Rightarrow>
             [ELog WARNING ''failed to retrieve tree head for log %v (%d): %v''
                [AStr (Prefix c), AInt (LogId c), AErr err]]
         | None \<Rightarrow> [])) ticks)"
proof (induction ticks arbitrary: s)
  case Nil
  show ?case by simp
next
  case (Cons tr ticks)
  obtain t r where tr: "tr = (t, r)" by (cases tr)
  show ?case
    unfolding tr by (cases r) (simp_all add: Cons.IH Let_def glog_Warningf_def)
qed

lemma get_sth_loop_since:
  "since s (get_sth_loop c ticks s) =
     ELog INFO ''start internal get-sth operations on log %v (%d)''
       [AStr (Prefix c), AInt (LogId c)] #
     concat (map (\<lambda>(t, r).
        [ETick t,
         EVLog 1 ''tick at %v: force internal get-sth for log %v (%d)''
           [ATime t, AStr (Prefix c), AInt (LogId c)],
         EGetTreeHead (LogId c) (Prefix c)] @
        (case r of
           Some err \<Rightarrow>
             [ELog WARNING ''failed to retrieve tree head for log %v (%d): %v''
                [AStr (Prefix c), AInt (LogId c), AErr err]]
         | None \<Rightarrow> [])) ticks)"
  by (simp add: since_def get_sth_loop_def range_ticker_C_trace glog_Infof_def)

lemma range_ticker_C_append:
  "range_ticker_C c (ticks @ later) s = range_ticker_C c later (range_ticker_C c ticks s)"
  by (induction ticks arbitrary: s) (auto simp: Let_def)

text \<open>
  C5: a head-state fetch that fails is logged and the goroutine goes on with the next
  tick. Whatever the outcomes of the fetches, the goroutine makes exactly one fetch for
  each tick it receives, in the order of the ticks, so a failure is not retried before the
  next tick; the errors it logs are the errors of the failed fetches, in order; it never
  ends the process; and after any ticks, failed or not, it handles the ticks that follow
  as it would have otherwise.
\<close>

theorem fetch_failure_logged_loop_goes_on:
  "filter (\<lambda>e. is_tick e \<or> is_fetch e) (since s (get_sth_loop c ticks s)) =
     concat (map (\<lambda>(t, r). [ETick t, EGetTreeHead (LogId c) (Prefix c)]) ticks)
   \<and> logged_errors (since s (get_sth_loop c ticks s)) = List.map_filter snd ticks
   \<and> filter is_exit (since s (get_sth_loop c ticks s)) = []
   \<and> get_sth_loop c (ticks @ later) s = range_ticker_C c later (get_sth_loop c ticks s)"
proof -
  have 1: "filter (\<lambda>e. is_tick e \<or> is_fetch e) (since s (get_sth_loop c ticks s)) =
     concat (map (\<lambda>(t, r). [ETick t, EGetTreeHead (LogId c) (Prefix c)]) ticks)"
    unfolding get_sth_loop_since
    by (induction ticks) (auto simp: is_tick_def is_fetch_def split: option.splits)
  have 2: "logged_errors (since s (get_sth_loop c ticks s)) = List.map_filter snd ticks"
    unfolding get_sth_loop_since
    by (induction ticks) (auto simp: List.map_filter_simps split: option.splits)
  have 3: "filter is_exit (since s (get_sth_loop c ticks s)) = []"
    unfolding get_sth_loop_since
    by (induction ticks) (auto simp: is_exit_def split: option.splits)
  have 4: "get_sth_loop c (ticks @ later) s = range_ticker_C c later (get_sth_loop c ticks s)"
    by (simp add: get_sth_loop_def range_ticker_C_append)
  from 1 2 3 4 show ?thesis by simp
qed

section \<open>Exit status and the order of startup\<close>

lemma choose_resolver_Continue:
  "choose_resolver fl w m s = Continue res s' \<Longrightarrow> res = chosen_resolver fl"
  by (auto simp: choose_resolver_def chosen_resolver_def Let_def glog_Exitf_def os_Exit_def
      Update_def split: if_splits option.splits)

lemma choose_resolver_client_fails:
  "length (etcdServers fl) > 0 \<Longrightarrow> clientv3_New w (strings_Split (etcdServers fl) CHR '','') \<noteq> None \<Longrightarrow>
   choose_resolver fl w m s \<noteq> Continue res s'"
  by (auto simp: choose_resolver_def Let_def glog_Exitf_def os_Exit_def)

lemma connect_fails:
  "grpc_Dial w (rpcBackendFlag fl) res \<noteq> None \<Longrightarrow> connect fl w res s \<noteq> Continue u s'"
  by (auto simp: connect_def Let_def glog_Exitf_def os_Exit_def)

lemma fatal_startup_failure_stops:
  assumes "fatal_startup_failure fl w"
  shows "\<not> proceeds (startup fl w s)"
proof (cases "LogConfigFromFile w (logConfigFlag fl)")
  case (Inl err)
  then show ?thesis by (simp add: startup_config_fails glog_Exitf_def os_Exit_def)
next
  case (Inr cfg)
  with assms consider
      (no_client) "length (etcdServers fl) > 0"
        "clientv3_New w (strings_Split (etcdServers fl) CHR '','') \<noteq> None"
    | (no_dial) "grpc_Dial w (rpcBackendFlag fl) (chosen_resolver fl) \<noteq> None"
    | (no_instance) c where "c \<in> set cfg" "\<not> set_up_ok w c"
    by (auto simp: fatal_startup_failure_def list_ex_iff)
  then show ?thesis
  proof cases
    case no_client
    from choose_resolver_client_fails [OF no_client] show ?thesis
      unfolding startup_unfold [OF Inr] by (simp add: proceeds_and_then)
  next
    case no_dial
    have "connect fl w res t \<noteq> Continue u t'" if "choose_resolver fl w m t0 = Continue res t" for res t u t' m t0
      using choose_resolver_Continue [OF that] connect_fails [OF no_dial] by simp
    then show ?thesis
      unfolding startup_unfold [OF Inr] by (auto simp: proceeds_and_then)
  next
    case no_instance
    from no_instance(2) obtain err where "SetUpInstance w c = Inl err"
      by (cases "SetUpInstance w c") (simp_all add: set_up_ok_def)
    from startup_setup_fails(1) [OF Inr no_instance(1) this] show ?thesis .
  qed
qed

text \<open>
  C1 (as amended): a termination signal that arrives while the process serves ends it with
  status 1, not 0, since the function given to \<^verbatim>\<open>awaitSignal\<close> calls \<^verbatim>\<open>os.Exit(1)\<close>. The
  process also ends with a status that is not zero, and without reaching
  \<^verbatim>\<open>ListenAndServe\<close>, on a fatal startup failure: the configuration does not load, the
  directory client or the backend connection cannot be made, or the set-up of an instance
  fails.
\<close>

theorem signal_and_startup_failure_exit_nonzero:
  "(listening (main fl w) \<and> serving w = Signalled sig \<longrightarrow> snd (main fl w) = Some 1)
   \<and> (fatal_startup_failure fl w \<longrightarrow>
        \<not> listening (main fl w) \<and> (\<exists>n. snd (main fl w) = Some n \<and> n \<noteq> 0))"
proof -
  have 1: "snd (main fl w) = Some 1" if "listening (main fl w)" "serving w = Signalled sig"
    using exit_status_cases [of fl w] that by simp
  have 2: "\<not> listening (main fl w) \<and> (\<exists>n. snd (main fl w) = Some n \<and> n \<noteq> 0)"
    if "fatal_startup_failure fl w"
  proof -
    from fatal_startup_failure_stops [OF that, of "initial 1000"]
    have nl: "\<not> listening (main fl w)"
      by (simp add: listening_iff)
    with exit_status_cases [of fl w] show ?thesis
      by (cases "panicked (main fl w)") simp_all
  qed
  from 1 2 show ?thesis by blast
qed

theorem signal_and_startup_failure_exit_nonzero_witness:
  "listening (main etcd_flags (world_of (Signalled SIGINT)))
   \<and> serving (world_of (Signalled SIGINT)) = Signalled SIGINT
   \<and> snd (main etcd_flags (world_of (Signalled SIGINT))) = Some 1
   \<and> fatal_startup_failure fixed_flags world_b_fails
   \<and> \<not> listening (main fixed_flags world_b_fails)
   \<and> snd (main fixed_flags world_b_fails) = Some 1"
proof -
  have 1: "listening (main etcd_flags (world_of (Signalled SIGINT)))"
    by code_simp
  have 2: "serving (world_of (Signalled SIGINT)) = Signalled SIGINT"
    by (simp add: world_of_def)
  have 3: "fatal_startup_failure fixed_flags world_b_fails"
    by code_simp
  have 4: "snd (main fixed_flags world_b_fails) = Some 1"
    by code_simp
  from signal_and_startup_failure_exit_nonzero [of etcd_flags "world_of (Signalled SIGINT)" SIGINT]
    signal_and_startup_failure_exit_nonzero [of fixed_flags world_b_fails SIGINT] 1 2 3 4
  show ?thesis by simp
qed

theorem signal_exit_zero_counterexample:
  "\<not> (listening (main etcd_flags (world_of (Signalled SIGTERM)))
       \<and> serving (world_of (Signalled SIGTERM)) = Signalled SIGTERM
      \<longrightarrow> snd (main etcd_flags (world_of (Signalled SIGTERM))) = Some 0)"
  by code_simp

text \<open>
  C2: the run of the etcd deployment that is signalled while it serves. The process ends
  with status 1 through \<^verbatim>\<open>os.Exit\<close>; no retraction is attempted and the connection is not
  closed: both deferred calls are still pending when the process is gone. In the run where
  \<^verbatim>\<open>ListenAndServe\<close> returns instead, the deferred calls do run, the close first.
\<close>

theorem signal_skips_deferred_calls:
  "listening (main etcd_flags (world_of (Signalled SIGTERM)))
   \<and> snd (main etcd_flags (world_of (Signalled SIGTERM))) = Some 1
   \<and> filter is_retract (trace (fst (main etcd_flags (world_of (Signalled SIGTERM))))) = []
   \<and> filter (\<lambda>e. e = EClose) (trace (fst (main etcd_flags (world_of (Signalled SIGTERM))))) = []
   \<and> defers (fst (main etcd_flags (world_of (Signalled SIGTERM)))) =
       [ConnClose,
        RemovePresence ''http'' \<lparr>Op = Delete, Addr = ''h:1''\<rparr>
          ''metrics'' \<lparr>Op = Delete, Addr = ''h:1''\<rparr>]
   \<and> filter (\<lambda>e. e = EClose \<or> is_retract e)
       (trace (fst (main etcd_flags (world_of (ListenerReturned ''closed''))))) =
       [EClose, EUpdate ''http'' \<lparr>Op = Delete, Addr = ''h:1''\<rparr>,
        EUpdate ''metrics'' \<lparr>Op = Delete, Addr = ''h:1''\<rparr>]"
  by code_simp

text \<open>
  C3 (as amended): the announcements come before the backend is dialled, before any
  instance is registered and before any listener is started.
\<close>

theorem announce_comes_first:
  "all_before is_announce (\<lambda>e. is_dial e \<or> is_registration e \<or> is_listener e)
     (trace (fst (main fl w)))"
proof (rule ordered_all_before [OF main_ordered, where j = 1])
  fix e
  assume "is_announce e"
  then show "milestone e \<and> stage e \<le> 1"
    by (auto simp: is_announce_def milestone_def split: event.splits)
next
  fix e
  assume "is_dial e \<or> is_registration e \<or> is_listener e"
  then show "milestone e \<and> 1 < stage e"
    by (auto simp: is_dial_def is_registration_def is_listener_def milestone_def
        split: event.splits handler.splits goroutine.splits)
qed

theorem announce_comes_first_witness:
  "filter is_announce (trace (fst (main etcd_flags (world_of ServesForever)))) =
     [EUpdate ''http'' \<lparr>Op = Add, Addr = ''h:1''\<rparr>, EUpdate ''metrics'' \<lparr>Op = Add, Addr = ''h:1''\<rparr>]
   \<and> all_before is_announce (\<lambda>e. is_dial e \<or> is_registration e \<or> is_listener e)
       (trace (fst (main etcd_flags (world_of ServesForever))))"
proof -
  have "filter is_announce (trace (fst (main etcd_flags (world_of ServesForever)))) =
     [EUpdate ''http'' \<lparr>Op = Add, Addr = ''h:1''\<rparr>, EUpdate ''metrics'' \<lparr>Op = Add, Addr = ''h:1''\<rparr>]"
    by code_simp
  with announce_comes_first [of etcd_flags "world_of ServesForever"] show ?thesis by simp
qed

theorem announce_after_listener_counterexample:
  "\<not> all_before is_listener is_announce (trace (fst (main etcd_flags (world_of ServesForever))))"
  by code_simp

section \<open>Failed set-up, the static variant, and the errors of updates\<close>

text \<open>
  C6: when the set-up of any configured log fails, the process ends with a status that is
  not zero (1, or 2 if a panic came first) and no HTTP listener is ever started, neither
  the main one nor the one of the metrics server.
\<close>

theorem setup_failure_is_fatal:
  assumes "LogConfigFromFile w (logConfigFlag fl) = Inr cfg"
    and "c \<in> set cfg" and "SetUpInstance w c = Inl err"
  shows "(snd (main fl w) = Some 1 \<or> snd (main fl w) = Some 2)
    \<and> filter is_listener (trace (fst (main fl w))) = []"
proof -
  have "filter is_listener (trace (fst (main fl w))) = []"
    by (rule stage_filter_empty [OF setup_failure_run(2) [OF assms]])
      (auto simp: is_listener_def split: event.splits goroutine.splits)
  with setup_failure_run(1) [OF assms] show ?thesis by simp
qed

theorem setup_failure_is_fatal_witness:
  "LogConfigFromFile world_b_fails (logConfigFlag fixed_flags) = Inr [log_a, log_b]
   \<and> log_b \<in> set [log_a, log_b]
   \<and> SetUpInstance world_b_fails log_b = Inl ''no key''
   \<and> (snd (main fixed_flags world_b_fails) = Some 1 \<or> snd (main fixed_flags world_b_fails) = Some 2)
   \<and> filter is_listener (trace (fst (main fixed_flags world_b_fails))) = []"
proof -
  have 1: "LogConfigFromFile world_b_fails (logConfigFlag fixed_flags) = Inr [log_a, log_b]"
    by (simp add: world_b_fails_def world_of_def)
  have 2: "log_b \<in> set [log_a, log_b]"
    by simp
  have 3: "SetUpInstance world_b_fails log_b = Inl ''no key''"
    by (simp add: world_b_fails_def)
  from setup_failure_is_fatal [OF 1 2 3] 1 2 3 show ?thesis by simp
qed

lemma and_then_inv:
  assumes "I (flow_state m)" and "\<And>x s'. m = Continue x s' \<Longrightarrow> I s' \<Longrightarrow> I (flow_state (k x s'))"
  shows "I (flow_state (and_then m k))"
  using assms by (cases m) (simp_all add: and_then_def)

lemma adds_keeps_dials:
  assumes "adds A D s s'" and "2 \<notin> A"
    and "list_all (\<lambda>e. \<not> is_dial e \<or> e = d) (trace s)"
  shows "list_all (\<lambda>e. \<not> is_dial e \<or> e = d) (trace s')"
proof -
  from adds_since [OF assms(1)] have
    t: "trace s' = trace s @ since s s'" and a: "list_all (\<lambda>e. stage e \<in> A) (since s s')"
    by simp_all
  have "\<not> is_dial e" if "e \<in> set (since s s')" for e
    using a that assms(2) by (auto simp: list_all_iff is_dial_def split: event.splits)
  with assms(3) show ?thesis
    unfolding t by (auto simp: list_all_iff)
qed

lemma main_dials:
  "list_all (\<lambda>e. \<not> is_dial e \<or> e = EDial (rpcBackendFlag fl) (chosen_resolver fl))
     (trace (fst (main fl w)))"
proof -
  let ?d = "EDial (rpcBackendFlag fl) (chosen_resolver fl)"
  let ?I = "\<lambda>s. list_all (\<lambda>e. \<not> is_dial e \<or> e = ?d) (trace s)"
  have i: "?I (initial 1000)"
    by (simp add: initial_def)
  have st: "?I (flow_state (startup fl w (initial 1000)))"
  proof (cases "LogConfigFromFile w (logConfigFlag fl)")
    case (Inl err)
    then show ?thesis
      by (simp add: startup_config_fails glog_Exitf_def os_Exit_def initial_def is_dial_def)
  next
    case (Inr cfg)
    have i0: "?I (emit (ELog INFO ''**** CT HTTP Server Starting ****'' [])
          (emit (ECopyStandardLogTo ''WARNING'')
            (if 0 < sint (maxGetEntriesFlag fl)
             then (initial 1000)\<lparr>MaxGetEntriesAllowed := maxGetEntriesFlag fl\<rparr> else initial 1000)))"
      by (simp add: initial_def is_dial_def)
    have r: "?I t \<Longrightarrow> ?I (flow_state (choose_resolver fl w m t))" for m t
      by (rule adds_keeps_dials [OF choose_resolver_adds]) simp_all
    have c: "?I t \<Longrightarrow> ?I (flow_state (connect fl w (chosen_resolver fl) t))" for t
      by (simp add: connect_def Let_def glog_Exitf_def os_Exit_def is_dial_def split: option.splits)
    have s: "?I t \<Longrightarrow> ?I (flow_state (set_up_instances w cfg cfg t))" for t
      by (rule adds_keeps_dials [OF set_up_instances_adds]) simp_all
    have m: "?I t \<Longrightarrow> ?I (flow_state (serve_metrics fl x t))" for x t
      by (rule adds_keeps_dials [OF serve_metrics_adds]) simp_all
    have g': "?I t \<Longrightarrow> ?I (start_get_sth fl cfg t)" for t
      by (rule adds_keeps_dials [OF start_get_sth_adds]) simp_all
    have g: "?I t \<Longrightarrow> ?I (if 0 < sint (getSTHInterval fl) then start_get_sth fl cfg t else t)" for t
      using g' [of t] by (simp split: if_splits)
    show ?thesis
      unfolding startup_unfold [OF Inr]
    proof (rule and_then_inv [where I = ?I], rule r [OF i0])
      fix res t
      assume res: "choose_resolver fl w (if metricsEndpoint fl = [] then httpEndpoint fl else metricsEndpoint fl)
          (emit (ELog INFO ''**** CT HTTP Server Starting ****'' [])
            (emit (ECopyStandardLogTo ''WARNING'')
              (if 0 < sint (maxGetEntriesFlag fl)
               then (initial 1000)\<lparr>MaxGetEntriesAllowed := maxGetEntriesFlag fl\<rparr> else initial 1000))) =
          Continue res t" and t: "?I t"
      have res': "res = chosen_resolver fl"
        using choose_resolver_Continue [OF res] .
      show "?I (flow_state (and_then (connect fl w res t)
          (\<lambda>_ s. and_then (set_up_instances w cfg cfg s)
          (\<lambda>_ s. and_then (serve_metrics fl (if metricsEndpoint fl = [] then httpEndpoint fl else metricsEndpoint fl) s)
          (\<lambda>_ s. Continue () (if 0 < sint (getSTHInterval fl) then start_get_sth fl cfg s else s))))))"
        unfolding res'
        apply (rule and_then_inv [where I = ?I], rule c [OF t])
        apply (rule and_then_inv [where I = ?I], erule s)
        apply (rule and_then_inv [where I = ?I], erule m)
        apply (simp only: flow_state.simps, erule g)
        done
    qed
  qed
  have mb: "?I (flow_state (main_body fl w (initial 1000)))"
    unfolding main_body_def
    by (rule and_then_inv [where I = ?I], rule st)
      (rule adds_keeps_dials [OF serve_adds], simp_all)
  have a: "adds {0, 1, 2, 3, 4, 5, 6} {7, 8} (initial 1000) (flow_state (main_body fl w (initial 1000)))"
    by (intro main_body_adds) simp_all
  from finish_trace [OF adds_initial(2) [OF a], of w] obtain evs where
    "trace (fst (main fl w)) = trace (flow_state (main_body fl w (initial 1000))) @ evs"
    "list_all (\<lambda>e. stage e \<in> insert 0 (insert 9 {7, 8})) evs"
    by (auto simp: main_def)
  with mb show ?thesis
    by (auto simp: list_all_iff is_dial_def split: event.splits)
qed

text \<open>
  C7: with no etcd servers configured, lines 108--111 choose the fixed resolver and leave
  the state as it is; the run makes no directory client and sends no update, neither an
  announcement nor a retraction; every dial is given the fixed resolver and the configured
  backend list; and the fixed resolver resolves a target to its comma-separated parts:
  joined with commas they are the target, and none of them holds a comma.
\<close>

theorem static_variant_keeps_off_directory:
  assumes "etcdServers fl = []"
  shows "choose_resolver fl w m s = Continue FixedBackendResolver s
    \<and> filter is_directory (trace (fst (main fl w))) = []
    \<and> list_all (\<lambda>e. \<not> is_dial e \<or> e = EDial (rpcBackendFlag fl) FixedBackendResolver)
        (trace (fst (main fl w)))
    \<and> strings_Join (FixedBackendResolver_Resolve target) '','' = target
    \<and> list_all (\<lambda>a. CHR '','' \<notin> set a) (FixedBackendResolver_Resolve target)"
proof -
  have "filter is_directory (trace (fst (main fl w))) = []"
    by (rule stage_filter_empty [OF static_run [OF assms]])
      (auto simp: is_directory_def split: event.splits)
  moreover have "chosen_resolver fl = FixedBackendResolver"
    using assms by (simp add: chosen_resolver_def)
  ultimately show ?thesis
    using assms main_dials [of fl w]
    by (simp add: choose_resolver_static FixedBackendResolver_Resolve_def strings_Join_Split
        strings_Split_no_sep)
qed

theorem static_variant_keeps_off_directory_witness:
  "etcdServers fixed_flags = []
   \<and> filter is_directory (trace (fst (main fixed_flags (world_of (ListenerReturned ''closed''))))) = []
   \<and> filter is_dial (trace (fst (main fixed_flags (world_of (ListenerReturned ''closed''))))) =
       [EDial ''h1:80,h2:80'' FixedBackendResolver]
   \<and> FixedBackendResolver_Resolve ''h1:80,h2:80'' = [''h1:80'', ''h2:80'']"
proof -
  have 1: "etcdServers fixed_flags = []"
    by (simp add: fixed_flags_def)
  have 2: "filter is_dial (trace (fst (main fixed_flags (world_of (ListenerReturned ''closed''))))) =
       [EDial ''h1:80,h2:80'' FixedBackendResolver]"
    by code_simp
  have 3: "FixedBackendResolver_Resolve ''h1:80,h2:80'' = [''h1:80'', ''h2:80'']"
    by code_simp
  from static_variant_keeps_off_directory [OF 1, of "world_of (ListenerReturned ''closed'')"] 1 2 3
  show ?thesis by simp
qed

text \<open>
  C8 (as amended): the error of a retraction is dropped. Whatever the directory answers to
  the Delete updates, the run is the same: the same events, log entries among them, and the
  same exit status.
\<close>

theorem retract_error_is_dropped:
  "main fl (w\<lparr>etcd_Update :=
      \<lambda>service u. if Op u = Delete then r service u else etcd_Update w service u\<rparr>) = main fl w"
  by (rule main_Update)

theorem retract_error_is_dropped_witness:
  "main etcd_flags ((world_of (ListenerReturned ''closed''))\<lparr>etcd_Update :=
      \<lambda>service u. if Op u = Delete then None
                   else etcd_Update (world_of (ListenerReturned ''closed'')) service u\<rparr>) =
     main etcd_flags (world_of (ListenerReturned ''closed''))
   \<and> snd (main etcd_flags (world_of (ListenerReturned ''closed''))) = Some 0"
proof -
  have "snd (main etcd_flags (world_of (ListenerReturned ''closed''))) = Some 0"
    by code_simp
  with retract_error_is_dropped [where fl = etcd_flags and w = "world_of (ListenerReturned ''closed'')"
      and r = "\<lambda>service u. None"]
  show ?thesis by simp
qed

theorem retract_failure_logged_counterexample:
  "\<not> (EUpdate ''http'' \<lparr>Op = Delete, Addr = ''h:1''\<rparr>
        \<in> set (trace (fst (main etcd_flags (world_of (ListenerReturned ''closed'')))))
       \<and> etcd_Update (world_of (ListenerReturned ''closed'')) ''http'' \<lparr>Op = Delete, Addr = ''h:1''\<rparr>
           = Some ''etcd down''
      \<longrightarrow> filter (logs_error ''etcd down'')
            (trace (fst (main etcd_flags (world_of (ListenerReturned ''closed''))))) \<noteq> [])"
  by code_simp

section \<open>Registration and the head-refresh tasks\<close>

lemma is_registration_stage: "is_registration e \<Longrightarrow> stage e = 3"
  by (auto simp: is_registration_def split: event.splits handler.splits)

lemma is_refresh_start_stage: "is_refresh_start e \<Longrightarrow> stage e = 5"
  by (auto simp: is_refresh_start_def split: event.splits goroutine.splits)

lemma is_listener_stage: "is_listener e \<Longrightarrow> stage e = 4 \<or> stage e = 6"
  by (auto simp: is_listener_def split: event.splits goroutine.splits)

lemma registrations_are: "list_all is_registration (concat (map (registration_of w) cs))"
  by (induction cs) (auto simp: registration_of_def is_registration_def list_all_iff)

lemma refresh_starts_are: "list_all is_refresh_start (concat (map (refresh_start_of fl) cs))"
  by (induction cs) (auto simp: refresh_start_of_def is_refresh_start_def)

lemma filter_all: "list_all P xs \<Longrightarrow> filter P xs = xs"
  by (simp add: list_all_iff)

lemma filter_none_by_stage:
  "list_all Q xs \<Longrightarrow> (\<And>e. Q e \<Longrightarrow> P e \<Longrightarrow> False) \<Longrightarrow> filter P xs = []"
  by (auto simp: list_all_iff filter_empty_conv)

lemma successful_run_filters:
  assumes l: "listening (main fl w)" and cfg: "LogConfigFromFile w (logConfigFlag fl) = Inr cfg"
  shows "filter is_registration (trace (fst (main fl w))) = concat (map (registration_of w) cfg)"
    and "filter is_refresh_start (trace (fst (main fl w))) =
      (if 0 < sint (getSTHInterval fl) then concat (map (refresh_start_of fl) cfg) else [])"
proof -
  let ?regs = "concat (map (registration_of w) cfg)"
  let ?refr = "concat (map (refresh_start_of fl) cfg)"
  from successful_run(1) [OF l cfg] obtain pre mid post where
    tr: "trace (fst (main fl w)) =
        pre @ ?regs @ mid @ (if 0 < sint (getSTHInterval fl) then ?refr else []) @ post"
    and pre: "list_all (\<lambda>e. stage e \<in> {0, 1, 2}) pre"
    and mid: "list_all (\<lambda>e. stage e \<in> {4}) mid"
    and post: "list_all (\<lambda>e. stage e \<in> {0, 6, 7, 8, 9}) post"
    by blast
  have g1: "filter is_registration pre = []" "filter is_refresh_start pre = []"
    by (rule filter_none_by_stage [OF pre], auto dest: is_registration_stage is_refresh_start_stage)+
  have g2: "filter is_registration mid = []" "filter is_refresh_start mid = []"
    by (rule filter_none_by_stage [OF mid], auto dest: is_registration_stage is_refresh_start_stage)+
  have g3: "filter is_registration post = []" "filter is_refresh_start post = []"
    by (rule filter_none_by_stage [OF post], auto dest: is_registration_stage is_refresh_start_stage)+
  have g4: "filter is_registration ?regs = ?regs"
    by (rule filter_all [OF registrations_are])
  have g5: "filter is_refresh_start ?regs = []"
    by (rule filter_none_by_stage [OF registrations_are])
      (use is_registration_stage is_refresh_start_stage in fastforce)
  have g6: "filter is_refresh_start ?refr = ?refr"
    by (rule filter_all [OF refresh_starts_are])
  have g7: "filter is_registration ?refr = []"
    by (rule filter_none_by_stage [OF refresh_starts_are])
      (use is_registration_stage is_refresh_start_stage in fastforce)
  show "filter is_registration (trace (fst (main fl w))) = ?regs"
    unfolding tr by (simp add: g1 g2 g3 g4 g7 del: filter_concat)
  show "filter is_refresh_start (trace (fst (main fl w))) =
      (if 0 < sint (getSTHInterval fl) then ?refr else [])"
    unfolding tr by (simp add: g1 g2 g3 g5 g6 del: filter_concat)
qed

lemma registration_before_later:
  "all_before is_registration (\<lambda>e. is_refresh_start e \<or> is_listener e) (trace (fst (main fl w)))"
proof (rule ordered_all_before [OF main_ordered, where j = 3])
  fix e
  assume "is_registration e"
  then show "milestone e \<and> stage e \<le> 3"
    by (auto simp: milestone_def dest: is_registration_stage)
next
  fix e
  assume "is_refresh_start e \<or> is_listener e"
  then show "milestone e \<and> 3 < stage e"
    by (auto simp: milestone_def dest: is_refresh_start_stage is_listener_stage)
qed

lemma failed_registration_starts_nothing:
  assumes "LogConfigFromFile w (logConfigFlag fl) = Inr cfg" and "list_ex (\<lambda>c. \<not> set_up_ok w c) cfg"
  shows "snd (main fl w) = Some 1 \<or> snd (main fl w) = Some 2"
    and "filter (\<lambda>e. is_refresh_start e \<or> is_listener e) (trace (fst (main fl w))) = []"
proof -
  from assms(2) obtain c where c: "c \<in> set cfg" "\<not> set_up_ok w c"
    by (auto simp: list_ex_iff)
  then obtain err where err: "SetUpInstance w c = Inl err"
    by (cases "SetUpInstance w c") (simp_all add: set_up_ok_def)
  note f = setup_failure_run [OF assms(1) c(1) err]
  from f(1) show "snd (main fl w) = Some 1 \<or> snd (main fl w) = Some 2" .
  show "filter (\<lambda>e. is_refresh_start e \<or> is_listener e) (trace (fst (main fl w))) = []"
    by (rule stage_filter_empty [OF f(2)]) (auto dest: is_refresh_start_stage is_listener_stage)
qed

text \<open>
  C9: every registration event (the set-up of an instance, the installation of one of its
  handlers) comes before the start of any head-refresh task and of any listener. When the
  process reaches \<^verbatim>\<open>ListenAndServe\<close> with \<open>N\<close> configured logs, every set-up has succeeded
  and the registration events of the run are those of the \<open>N\<close> logs in the order of the
  configuration: exactly the \<open>N\<close> path-to-handler sets are installed, their paths differ
  from one another, the router maps each path to its handler, and it holds no other route
  but \<^verbatim>\<open>/metrics\<close> when metrics share the HTTP endpoint. When the set-up of a log fails,
  the process ends with status 1 or 2 and starts no refresh task and no listener.
\<close>

theorem registration_completes_first:
  "all_before is_registration (\<lambda>e. is_refresh_start e \<or> is_listener e) (trace (fst (main fl w)))
   \<and> (listening (main fl w) \<and> LogConfigFromFile w (logConfigFlag fl) = Inr cfg \<longrightarrow>
        list_all (set_up_ok w) cfg
      \<and> length (handler_sets w cfg) = length cfg
      \<and> filter is_registration (trace (fst (main fl w))) = concat (map (registration_of w) cfg)
      \<and> distinct (map fst (concat (handler_sets w cfg)))
      \<and> list_all (\<lambda>(p, h). mux (fst (main fl w)) p = Some (App h)) (concat (handler_sets w cfg))
      \<and> dom (mux (fst (main fl w))) =
          fst ` set (concat (handler_sets w cfg)) \<union>
          (if metricsEndpoint fl = [] \<or> metricsEndpoint fl = httpEndpoint fl
           then {''/metrics''} else {}))
   \<and> (LogConfigFromFile w (logConfigFlag fl) = Inr cfg \<and> list_ex (\<lambda>c. \<not> set_up_ok w c) cfg \<longrightarrow>
        (snd (main fl w) = Some 1 \<or> snd (main fl w) = Some 2)
      \<and> filter (\<lambda>e. is_refresh_start e \<or> is_listener e) (trace (fst (main fl w))) = [])"
  using registration_before_later [of fl w] successful_run(2,3,4) [of fl w cfg]
    successful_run_filters(1) [of fl w cfg] successful_run_routes [of fl w cfg]
    failed_registration_starts_nothing [of w fl cfg]
  by (simp add: handler_sets_def)

theorem registration_completes_first_witness:
  "listening (main etcd_flags (world_of ServesForever))
   \<and> LogConfigFromFile (world_of ServesForever) (logConfigFlag etcd_flags) = Inr [log_a, log_b]
   \<and> filter is_registration (trace (fst (main etcd_flags (world_of ServesForever)))) =
       [ESetUp log_a, EHandle ''a/x'' (App \<lparr>Name = ''x''\<rparr>),
        ESetUp log_b, EHandle ''b/x'' (App \<lparr>Name = ''x''\<rparr>)]
   \<and> mux (fst (main etcd_flags (world_of ServesForever))) ''a/x'' = Some (App \<lparr>Name = ''x''\<rparr>)
   \<and> mux (fst (main etcd_flags (world_of ServesForever))) ''b/x'' = Some (App \<lparr>Name = ''x''\<rparr>)
   \<and> LogConfigFromFile world_b_fails (logConfigFlag fixed_flags) = Inr [log_a, log_b]
   \<and> list_ex (\<lambda>c. \<not> set_up_ok world_b_fails c) [log_a, log_b]
   \<and> snd (main fixed_flags world_b_fails) = Some 1
   \<and> filter (\<lambda>e. is_refresh_start e \<or> is_listener e) (trace (fst (main fixed_flags world_b_fails))) = []"
proof -
  have 1: "listening (main etcd_flags (world_of ServesForever))"
    by code_simp
  have 2: "LogConfigFromFile (world_of ServesForever) (logConfigFlag etcd_flags) = Inr [log_a, log_b]"
    by (simp add: world_of_def)
  have 3: "LogConfigFromFile world_b_fails (logConfigFlag fixed_flags) = Inr [log_a, log_b]"
    by (simp add: world_b_fails_def world_of_def)
  have 4: "list_ex (\<lambda>c. \<not> set_up_ok world_b_fails c) [log_a, log_b]"
    by (simp add: world_b_fails_def set_up_ok_def)
  have 5: "snd (main fixed_flags world_b_fails) = Some 1"
    by code_simp
  have 6: "concat (map (registration_of (world_of ServesForever)) [log_a, log_b]) =
       [ESetUp log_a, EHandle ''a/x'' (App \<lparr>Name = ''x''\<rparr>),
        ESetUp log_b, EHandle ''b/x'' (App \<lparr>Name = ''x''\<rparr>)]"
    by (simp add: registration_of_def world_of_def log_a_def log_b_def)
  have 7: "concat (handler_sets (world_of ServesForever) [log_a, log_b]) =
       [(''a/x'', \<lparr>Name = ''x''\<rparr>), (''b/x'', \<lparr>Name = ''x''\<rparr>)]"
    by (simp add: handler_sets_def world_of_def log_a_def log_b_def)
  from registration_completes_first [of etcd_flags "world_of ServesForever" "[log_a, log_b]"]
    registration_completes_first [of fixed_flags world_b_fails "[log_a, log_b]"]
    1 2 3 4 5 6 7
  show ?thesis by simp
qed

lemma fetches_answer_ticks_loop:
  assumes "list_all (\<lambda>(t, r). lim \<le> t) ticks"
    and "case seen of None \<Rightarrow> True | Some t \<Rightarrow> lim \<le> t"
  shows "fetches_answer_ticks lim seen
     (concat (map (\<lambda>(t, r).
        [ETick t,
         EVLog 1 ''tick at %v: force internal get-sth for log %v (%d)''
           [ATime t, AStr (Prefix c), AInt (LogId c)],
         EGetTreeHead (LogId c) (Prefix c)] @
        (case r of
           Some err \<Rightarrow>
             [ELog WARNING ''failed to retrieve tree head for log %v (%d): %v''
                [AStr (Prefix c), AInt (LogId c), AErr err]]
         | None \<Rightarrow> [])) ticks))"
  using assms
proof (induction ticks arbitrary: seen)
  case Nil
  show ?case by simp
next
  case (Cons tr ticks)
  obtain t r where tr: "tr = (t, r)" by (cases tr)
  from Cons.prems have t: "lim \<le> t" and rest: "list_all (\<lambda>(t, r). lim \<le> t) ticks"
    by (simp_all add: tr)
  from Cons.IH [OF rest, of "Some t"] t show ?case
    by (cases r) (simp_all add: tr)
qed

lemma ticker_C_not_early:
  assumes "0 < sint d"
  shows "list_all (\<lambda>(t, r). created + sint d \<le> t) (zip (ticker_C created d ks) rs)"
proof -
  have "created + sint d \<le> created + int (Suc k) * sint d" for k
  proof -
    have "0 \<le> int k * sint d"
      using assms by simp
    then show ?thesis
      by (simp add: algebra_simps)
  qed
  then have "\<forall>t\<in>set (ticker_C created d ks). created + sint d \<le> t"
    by (auto simp: ticker_C_def)
  then show ?thesis
    by (auto simp: list_all_iff dest: set_zip_leftD)
qed

lemma first_fetch_not_early:
  assumes "0 < sint d"
  shows "fetches_answer_ticks (created + sint d) None
     (since s (get_sth_loop c (zip (ticker_C created d ks) rs) s))"
  unfolding get_sth_loop_since
  using fetches_answer_ticks_loop [OF ticker_C_not_early [OF assms], where seen = None]
  by simp

text \<open>
  C4: with a refresh interval of 0 (or less) the run makes no ticker and starts no
  head-refresh goroutine. With an interval above 0, a process that reaches
  \<^verbatim>\<open>ListenAndServe\<close> has made, for each configured log in turn, one ticker of that interval
  and one goroutine for that log, and nothing else of the kind; they are made after every
  registration event. The goroutine fetches only in answer to a tick, and a ticker made at
  \<open>created\<close> sends its first tick one interval later: every fetch answers a tick sent at
  \<open>created\<close> plus the interval or later, so there is no fetch at the start.
\<close>

theorem one_refresh_task_per_log:
  "(sint (getSTHInterval fl) \<le> 0 \<longrightarrow> filter is_refresh_start (trace (fst (main fl w))) = [])
   \<and> (0 < sint (getSTHInterval fl) \<and> listening (main fl w)
        \<and> LogConfigFromFile w (logConfigFlag fl) = Inr cfg \<longrightarrow>
        filter is_refresh_start (trace (fst (main fl w))) = concat (map (refresh_start_of fl) cfg))
   \<and> all_before is_registration is_refresh_start (trace (fst (main fl w)))
   \<and> (0 < sint (getSTHInterval fl) \<longrightarrow>
        fetches_answer_ticks (created + sint (getSTHInterval fl)) None
          (since s (get_sth_loop c (zip (ticker_C created (getSTHInterval fl) ks) rs) s)))"
proof -
  have 1: "filter is_refresh_start (trace (fst (main fl w))) = []" if "sint (getSTHInterval fl) \<le> 0"
  proof -
    have "list_all (\<lambda>e. stage e \<in> {0, 1, 2, 3, 4, 6} \<union> {7, 8} \<union> {9}) (trace (fst (main fl w)))"
      using that by (intro main_stages) simp_all
    then show ?thesis
      by (rule stage_filter_empty) (auto dest: is_refresh_start_stage)
  qed
  have 3: "all_before is_registration is_refresh_start (trace (fst (main fl w)))"
  proof (rule ordered_all_before [OF main_ordered, where j = 3])
    fix e
    assume "is_registration e"
    then show "milestone e \<and> stage e \<le> 3"
      by (auto simp: milestone_def dest: is_registration_stage)
  next
    fix e
    assume "is_refresh_start e"
    then show "milestone e \<and> 3 < stage e"
      by (auto simp: milestone_def dest: is_refresh_start_stage)
  qed
  from 1 3 successful_run_filters(2) [of fl w cfg] first_fetch_not_early [of "getSTHInterval fl" created s c ks rs]
  show ?thesis by simp
qed

theorem one_refresh_task_per_log_witness:
  "0 < sint (getSTHInterval etcd_flags)
   \<and> listening (main etcd_flags (world_of ServesForever))
   \<and> LogConfigFromFile (world_of ServesForever) (logConfigFlag etcd_flags) = Inr [log_a, log_b]
   \<and> filter is_refresh_start (trace (fst (main etcd_flags (world_of ServesForever)))) =
       [ENewTicker 180, EGo (GetSTHLoop log_a), ENewTicker 180, EGo (GetSTHLoop log_b)]
   \<and> fetches_answer_ticks 185 None
       (since (initial 0) (get_sth_loop log_a (zip (ticker_C 5 180 [0, 1, 3]) [None, Some ''x'', None]) (initial 0)))
   \<and> sint (getSTHInterval fixed_flags) \<le> 0
   \<and> filter is_refresh_start (trace (fst (main fixed_flags (world_of ServesForever)))) = []"
proof -
  have 0: "getSTHInterval etcd_flags = 180" "getSTHInterval fixed_flags = 0"
    by (simp_all add: etcd_flags_def fixed_flags_def)
  have 1: "0 < sint (180 :: 64 word)" "sint (180 :: 64 word) = 180"
    by simp_all
  have 2: "listening (main etcd_flags (world_of ServesForever))"
    by code_simp
  have 3: "LogConfigFromFile (world_of ServesForever) (logConfigFlag etcd_flags) = Inr [log_a, log_b]"
    by (simp add: world_of_def)
  have 4: "concat (map (refresh_start_of etcd_flags) [log_a, log_b]) =
       [ENewTicker 180, EGo (GetSTHLoop log_a), ENewTicker 180, EGo (GetSTHLoop log_b)]"
    by (simp add: refresh_start_of_def 0)
  from one_refresh_task_per_log [of etcd_flags "world_of ServesForever" "[log_a, log_b]" 5 "initial 0" log_a
      "[0, 1, 3]" "[None, Some ''x'', None]"]
    one_refresh_task_per_log [of fixed_flags "world_of ServesForever" "[log_a, log_b]" 5 "initial 0" log_a
      "[0, 1, 3]" "[None, Some ''x'', None]"]
    0 1 2 3 4
  show ?thesis by simp
qed

section \<open>Going on after the announcements\<close>

lemma install_handlers_proceeds:
  "distinct (map fst hs) \<Longrightarrow> list_all (\<lambda>(p, h). p \<noteq> [] \<and> mux s p = None) hs \<Longrightarrow>
   proceeds (install_handlers hs s)"
proof (induction hs arbitrary: s)
  case Nil
  show ?case by simp
next
  case (Cons ph hs)
  obtain p h where ph: "ph = (p, h)" by (cases ph)
  let ?s1 = "emit (EHandle p (App h)) (s\<lparr>mux := (mux s)(p \<mapsto> App h)\<rparr>)"
  from Cons.prems have p: "p \<noteq> []" "mux s p = None" "p \<notin> fst ` set hs"
    and d: "distinct (map fst hs)"
    and r: "list_all (\<lambda>(q, h). q \<noteq> [] \<and> mux s q = None) hs"
    by (simp_all add: ph)
  have 1: "http_Handle p (App h) s = Continue () ?s1"
    using p by (simp add: http_Handle_def)
  have "list_all (\<lambda>(q, h). q \<noteq> [] \<and> mux ?s1 q = None) hs"
    using r p(3) by (force simp: list_all_iff)
  from Cons.IH [OF d this] show ?case
    by (simp add: ph 1 and_then_def)
qed

lemma set_up_instances_proceeds:
  "list_all (set_up_ok w) cs \<Longrightarrow> distinct (map fst (concat (handler_sets w cs))) \<Longrightarrow>
   list_all (\<lambda>(p, h). p \<noteq> [] \<and> mux s p = None) (concat (handler_sets w cs)) \<Longrightarrow>
   proceeds (set_up_instances w cfg cs s)"
proof (induction cs arbitrary: s)
  case Nil
  show ?case by simp
next
  case (Cons c cs)
  from Cons.prems(1) obtain hs where hs: "SetUpInstance w c = Inr hs"
    by (cases "SetUpInstance w c") (simp_all add: set_up_ok_def)
  have hsets: "handler_sets w (c # cs) = hs # handler_sets w cs"
    by (simp add: handler_sets_def hs)
  from Cons.prems have ok: "list_all (set_up_ok w) cs"
    and d1: "distinct (map fst hs)"
    and d2: "distinct (map fst (concat (handler_sets w cs)))"
    and dj: "fst ` set hs \<inter> fst ` set (concat (handler_sets w cs)) = {}"
    and f1: "list_all (\<lambda>(p, h). p \<noteq> [] \<and> mux s p = None) hs"
    and f2: "list_all (\<lambda>(p, h). p \<noteq> [] \<and> mux s p = None) (concat (handler_sets w cs))"
    by (simp_all add: hsets del: set_concat)
  have "proceeds (install_handlers hs (emit (ESetUp c) s))"
    using d1 f1 by (intro install_handlers_proceeds) simp_all
  then obtain x s1 where 1: "install_handlers hs (emit (ESetUp c) s) = Continue x s1"
    by (cases "install_handlers hs (emit (ESetUp c) s)") simp_all
  from install_handlers_dom [OF 1] have dom1: "dom (mux s1) = dom (mux s) \<union> fst ` set hs"
    by simp
  have "list_all (\<lambda>(p, h). p \<noteq> [] \<and> mux s1 p = None) (concat (handler_sets w cs))"
    unfolding list_all_iff
  proof
    fix y
    assume y: "y \<in> set (concat (handler_sets w cs))"
    obtain q h where qh: "y = (q, h)" by (cases y)
    from f2 y qh have q: "q \<noteq> []" "mux s q = None"
      by (auto simp: list_all_iff)
    from dj y qh have "q \<notin> fst ` set hs"
      by force
    with q(2) dom1 have "q \<notin> dom (mux s1)"
      by (auto simp: dom_def)
    with q(1) qh show "case y of (p, h) \<Rightarrow> p \<noteq> [] \<and> mux s1 p = None"
      by (simp add: dom_def)
  qed
  from Cons.IH [OF ok d2 this] show ?case
    by (simp add: hs Let_def 1 and_then_def)
qed

lemma choose_resolver_proceeds:
  "(length (etcdServers fl) > 0 \<Longrightarrow> clientv3_New w (strings_Split (etcdServers fl) CHR '','') = None) \<Longrightarrow>
   proceeds (choose_resolver fl w m s)"
  by (simp add: choose_resolver_def Let_def Update_def)

lemma startup_proceeds:
  assumes cfg: "LogConfigFromFile w (logConfigFlag fl) = Inr cfg"
    and nf: "\<not> fatal_startup_failure fl w" and nc: "\<not> routes_clash fl w"
  shows "proceeds (startup fl w (initial 1000))"
proof -
  let ?M = "if metricsEndpoint fl = [] then httpEndpoint fl else metricsEndpoint fl"
  let ?s0 = "emit (ELog INFO ''**** CT HTTP Server Starting ****'' [])
          (emit (ECopyStandardLogTo ''WARNING'')
            (if 0 < sint (maxGetEntriesFlag fl)
             then (initial 1000)\<lparr>MaxGetEntriesAllowed := maxGetEntriesFlag fl\<rparr> else initial 1000))"
  let ?paths = "concat (handler_sets w cfg)"
  from nf cfg have client: "length (etcdServers fl) > 0 \<Longrightarrow>
      clientv3_New w (strings_Split (etcdServers fl) CHR '','') = None"
    and dial: "grpc_Dial w (rpcBackendFlag fl) (chosen_resolver fl) = None"
    and ok: "list_all (set_up_ok w) cfg"
    by (auto simp: fatal_startup_failure_def list_all_iff list_ex_iff)
  from nc cfg have d: "distinct (map fst ?paths)" and ne: "[] \<notin> fst ` set ?paths"
    and met: "?M = httpEndpoint fl \<Longrightarrow> ''/metrics'' \<notin> fst ` set ?paths"
    by (auto simp: routes_clash_def Let_def split: if_splits simp del: set_concat)
  have m0: "mux ?s0 = Map.empty"
    by (simp add: initial_def)
  from choose_resolver_proceeds [OF client, of ?M ?s0] obtain res s1 where
    r: "choose_resolver fl w ?M ?s0 = Continue res s1"
    by (cases "choose_resolver fl w ?M ?s0") simp_all
  have res: "res = chosen_resolver fl"
    by (rule choose_resolver_Continue [OF r])
  have m1: "mux s1 = Map.empty"
    using arg_cong [OF r, of "\<lambda>f. mux (flow_state f)"] m0 by (simp add: choose_resolver_mux)
  let ?s2 = "(emit (EDial (rpcBackendFlag fl) res) s1)\<lparr>defers := ConnClose # defers s1\<rparr>"
  have c: "connect fl w res s1 = Continue () ?s2"
    using dial by (simp add: connect_def Let_def res)
  have m2: "mux ?s2 = Map.empty"
    by (simp add: m1)
  have "list_all (\<lambda>(p, h). p \<noteq> [] \<and> mux ?s2 p = None) ?paths"
    using ne by (force simp: list_all_iff m1)
  from set_up_instances_proceeds [OF ok d this, of cfg] obtain x s3 where
    i: "set_up_instances w cfg cfg ?s2 = Continue x s3"
    by (cases "set_up_instances w cfg cfg ?s2") simp_all
  from set_up_instances_dom [OF i] have m3: "dom (mux s3) = fst ` set ?paths"
    by (simp add: m1)
  have "proceeds (serve_metrics fl ?M s3)"
  proof (cases "?M = httpEndpoint fl")
    case True
    from met [OF True] m3 have "''/metrics'' \<notin> dom (mux s3)"
      by simp
    then have "mux s3 ''/metrics'' = None"
      by (simp add: domIff)
    with True show ?thesis
      by (simp add: serve_metrics_def http_Handle_def)
  next
    case False
    then show ?thesis
      by (simp add: serve_metrics_def)
  qed
  then obtain y s4 where m: "serve_metrics fl ?M s3 = Continue y s4"
    by (cases "serve_metrics fl ?M s3") simp_all
  show ?thesis
    unfolding startup_unfold [OF cfg]
    by (simp add: r c i m and_then_def)
qed

lemma adds_keeps_announcements:
  assumes "adds A D s s'" and "1 \<notin> A"
  shows "filter is_announce (trace s') = filter is_announce (trace s)"
proof -
  from adds_since [OF assms(1)] have
    t: "trace s' = trace s @ since s s'" and a: "list_all (\<lambda>e. stage e \<in> A) (since s s')"
    by simp_all
  have "filter is_announce (since s s') = []"
    by (rule stage_filter_empty [OF a])
      (use assms(2) in \<open>auto simp: is_announce_def split: event.splits\<close>)
  then show ?thesis
    unfolding t by simp
qed

lemma main_announcements:
  assumes cfg: "LogConfigFromFile w (logConfigFlag fl) = Inr cfg"
    and dyn: "length (etcdServers fl) > 0"
    and client: "clientv3_New w (strings_Split (etcdServers fl) CHR '','') = None"
  shows "filter is_announce (trace (fst (main fl w))) =
     [EUpdate (etcdHTTPService fl) \<lparr>Op = Add, Addr = httpEndpoint fl\<rparr>,
      EUpdate (etcdMetricsService fl)
        \<lparr>Op = Add, Addr = (if metricsEndpoint fl = [] then httpEndpoint fl else metricsEndpoint fl)\<rparr>]"
proof -
  let ?X = "[EUpdate (etcdHTTPService fl) \<lparr>Op = Add, Addr = httpEndpoint fl\<rparr>,
      EUpdate (etcdMetricsService fl)
        \<lparr>Op = Add, Addr = (if metricsEndpoint fl = [] then httpEndpoint fl else metricsEndpoint fl)\<rparr>]"
  let ?I = "\<lambda>s. filter is_announce (trace s) = ?X"
  have r: "?I (flow_state (choose_resolver fl w
        (if metricsEndpoint fl = [] then httpEndpoint fl else metricsEndpoint fl)
        (emit (ELog INFO ''**** CT HTTP Server Starting ****'' [])
          (emit (ECopyStandardLogTo ''WARNING'')
            (if 0 < sint (maxGetEntriesFlag fl)
             then (initial 1000)\<lparr>MaxGetEntriesAllowed := maxGetEntriesFlag fl\<rparr> else initial 1000)))))"
    using dyn client
    by (simp add: choose_resolver_def Let_def Update_def glog_Infof_def initial_def is_announce_def)
  have c: "?I t \<Longrightarrow> ?I (flow_state (connect fl w res t))" for res t
    using adds_keeps_announcements [OF connect_adds, where s = t] by simp
  have s: "?I t \<Longrightarrow> ?I (flow_state (set_up_instances w cfg cfg t))" for t
    using adds_keeps_announcements [OF set_up_instances_adds, where s = t] by simp
  have m: "?I t \<Longrightarrow> ?I (flow_state (serve_metrics fl x t))" for x t
    using adds_keeps_announcements [OF serve_metrics_adds, where s = t] by simp
  have g: "?I t \<Longrightarrow> ?I (if 0 < sint (getSTHInterval fl) then start_get_sth fl cfg t else t)" for t
    using adds_keeps_announcements [OF start_get_sth_adds, where s = t] by (simp split: if_splits)
  have st: "?I (flow_state (startup fl w (initial 1000)))"
    unfolding startup_unfold [OF cfg]
    apply (rule and_then_inv [where I = ?I], rule r)
    apply (rule and_then_inv [where I = ?I], erule c)
    apply (rule and_then_inv [where I = ?I], erule s)
    apply (rule and_then_inv [where I = ?I], erule m)
    apply (simp only: flow_state.simps, erule g)
    done
  have sv: "?I t \<Longrightarrow> ?I (flow_state (serve fl w t))" for t
    using adds_keeps_announcements [OF serve_adds, where s = t] by simp
  have mb: "?I (flow_state (main_body fl w (initial 1000)))"
    unfolding main_body_def
    by (rule and_then_inv [where I = ?I], rule st) (erule sv)
  have a: "adds {0, 1, 2, 3, 4, 5, 6} {7, 8} (initial 1000) (flow_state (main_body fl w (initial 1000)))"
    by (intro main_body_adds) simp_all
  from finish_trace [OF adds_initial(2) [OF a], of w] obtain evs where
    t: "trace (fst (main fl w)) = trace (flow_state (main_body fl w (initial 1000))) @ evs"
    and e: "list_all (\<lambda>e. stage e \<in> insert 0 (insert 9 {7, 8})) evs"
    by (auto simp: main_def)
  have "filter is_announce evs = []"
    by (rule stage_filter_empty [OF e]) (auto simp: is_announce_def split: event.splits)
  with mb show ?thesis
    unfolding t by simp
qed

text \<open>
  C10: the errors of the two announcements are dropped. Whatever the directory answers to
  the Add updates, failures included, the run is the same: nothing more is logged and the
  process does not end for it. In the dynamic variant, when the configuration loads,
  nothing fatal happens at startup and no route makes \<^verbatim>\<open>http.Handle\<close> panic, the run makes
  both announcements and then goes on: it registers every configured instance, so that the
  router maps each of their paths to its handler, and it reaches \<^verbatim>\<open>ListenAndServe\<close>.
\<close>

theorem announce_errors_are_dropped:
  "main fl (announcing r w) = main fl w
   \<and> (0 < length (etcdServers fl) \<and> LogConfigFromFile w (logConfigFlag fl) = Inr cfg
        \<and> \<not> fatal_startup_failure fl w \<and> \<not> routes_clash fl w \<longrightarrow>
        filter is_announce (trace (fst (main fl (announcing r w)))) =
          [EUpdate (etcdHTTPService fl) \<lparr>Op = Add, Addr = httpEndpoint fl\<rparr>,
           EUpdate (etcdMetricsService fl)
             \<lparr>Op = Add,
              Addr = (if metricsEndpoint fl = [] then httpEndpoint fl else metricsEndpoint fl)\<rparr>]
      \<and> filter is_registration (trace (fst (main fl (announcing r w)))) =
          concat (map (registration_of w) cfg)
      \<and> list_all (\<lambda>(p, h). mux (fst (main fl (announcing r w))) p = Some (App h))
          (concat (handler_sets w cfg))
      \<and> listening (main fl (announcing r w)))"
proof -
  have same: "main fl (announcing r w) = main fl w"
    unfolding announcing_def by (rule main_Update)
  have go: "filter is_announce (trace (fst (main fl w))) =
          [EUpdate (etcdHTTPService fl) \<lparr>Op = Add, Addr = httpEndpoint fl\<rparr>,
           EUpdate (etcdMetricsService fl)
             \<lparr>Op = Add,
              Addr = (if metricsEndpoint fl = [] then httpEndpoint fl else metricsEndpoint fl)\<rparr>]
      \<and> filter is_registration (trace (fst (main fl w))) = concat (map (registration_of w) cfg)
      \<and> list_all (\<lambda>(p, h). mux (fst (main fl w)) p = Some (App h)) (concat (handler_sets w cfg))
      \<and> listening (main fl w)"
    if dyn: "0 < length (etcdServers fl)" and cfg: "LogConfigFromFile w (logConfigFlag fl) = Inr cfg"
      and nf: "\<not> fatal_startup_failure fl w" and nc: "\<not> routes_clash fl w"
  proof -
    from nf cfg dyn have client: "clientv3_New w (strings_Split (etcdServers fl) CHR '','') = None"
      by (auto simp: fatal_startup_failure_def)
    have l: "listening (main fl w)"
      using startup_proceeds [OF cfg nf nc] by (simp add: listening_iff)
    from main_announcements [OF cfg dyn client] successful_run_filters(1) [OF l cfg]
      successful_run(4) [OF l cfg] l
    show ?thesis by simp
  qed
  from same go show ?thesis by simp
qed

theorem announce_errors_are_dropped_witness:
  "0 < length (etcdServers etcd_flags)
   \<and> LogConfigFromFile (world_of ServesForever) (logConfigFlag etcd_flags) = Inr [log_a, log_b]
   \<and> \<not> fatal_startup_failure etcd_flags (world_of ServesForever)
   \<and> \<not> routes_clash etcd_flags (world_of ServesForever)
   \<and> etcd_Update (announcing (\<lambda>service u. Some ''refused'') (world_of ServesForever))
        ''http'' \<lparr>Op = Add, Addr = ''h:1''\<rparr> = Some ''refused''
   \<and> main etcd_flags (announcing (\<lambda>service u. Some ''refused'') (world_of ServesForever)) =
       main etcd_flags (world_of ServesForever)
   \<and> filter is_announce
       (trace (fst (main etcd_flags (announcing (\<lambda>service u. Some ''refused'') (world_of ServesForever))))) =
       [EUpdate ''http'' \<lparr>Op = Add, Addr = ''h:1''\<rparr>, EUpdate ''metrics'' \<lparr>Op = Add, Addr = ''h:1''\<rparr>]
   \<and> filter is_registration
       (trace (fst (main etcd_flags (announcing (\<lambda>service u. Some ''refused'') (world_of ServesForever))))) =
       [ESetUp log_a, EHandle ''a/x'' (App \<lparr>Name = ''x''\<rparr>),
        ESetUp log_b, EHandle ''b/x'' (App \<lparr>Name = ''x''\<rparr>)]
   \<and> listening (main etcd_flags (announcing (\<lambda>service u. Some ''refused'') (world_of ServesForever)))
   \<and> logged_errors
       (trace (fst (main etcd_flags (announcing (\<lambda>service u. Some ''refused'') (world_of ServesForever))))) = []"
proof -
  have 1: "0 < length (etcdServers etcd_flags)"
    by (simp add: etcd_flags_def)
  have 2: "LogConfigFromFile (world_of ServesForever) (logConfigFlag etcd_flags) = Inr [log_a, log_b]"
    by (simp add: world_of_def)
  have 3: "\<not> fatal_startup_failure etcd_flags (world_of ServesForever)"
    by code_simp
  have 4: "\<not> routes_clash etcd_flags (world_of ServesForever)"
    by code_simp
  have 5: "etcd_Update (announcing (\<lambda>service u. Some ''refused'') (world_of ServesForever))
        ''http'' \<lparr>Op = Add, Addr = ''h:1''\<rparr> = Some ''refused''"
    by (simp add: announcing_def)
  have 6: "concat (map (registration_of (world_of ServesForever)) [log_a, log_b]) =
       [ESetUp log_a, EHandle ''a/x'' (App \<lparr>Name = ''x''\<rparr>),
        ESetUp log_b, EHandle ''b/x'' (App \<lparr>Name = ''x''\<rparr>)]"
    by (simp add: registration_of_def world_of_def log_a_def log_b_def)
  have 7: "httpEndpoint etcd_flags = ''h:1''" "metricsEndpoint etcd_flags = []"
    "etcdHTTPService etcd_flags = ''http''" "etcdMetricsService etcd_flags = ''metrics''"
    by (simp_all add: etcd_flags_def)
  note a = announce_errors_are_dropped [where fl = etcd_flags and w = "world_of ServesForever"
      and r = "\<lambda>service u. Some ''refused''" and cfg = "[log_a, log_b]"]
  note same = a [THEN conjunct1]
  note go = a [THEN conjunct2, THEN mp, OF conjI [OF 1 conjI [OF 2 conjI [OF 3 4]]], simplified 6 7]
  have 8: "logged_errors
       (trace (fst (main etcd_flags (announcing (\<lambda>service u. Some ''refused'') (world_of ServesForever))))) = []"
    unfolding same by code_simp
  from 1 2 3 4 5 go 8 show ?thesis
    by (intro conjI same) simp_all
qed

end
